theory Spec2Isabelle
  imports Main
begin

section \<open>The insertion-ordered map of \<open>insertion_ordered_map.h\<close>\<close>

text \<open>
  The header defines one class template, \<open>insertion_ordered_map<K, V, Hash>\<close>. A container
  object holds a \<open>std::shared_ptr<map_structure> data\<close>; the pointee holds a hash index
  (\<open>mappings\<close>), the list of keys in insertion order (\<open>insertions\<close>) and the flag
  \<open>non_const_refs_given\<close>. Several container objects may point to one pointee, and the
  code decides with \<open>use_count()\<close> whether it copies before it writes.

  The embedding keeps that structure. A \<open>world\<close> is the store of all pointees
  (\<open>heap\<close>, an address is an index), the table of container objects (\<open>handles\<close>, an
  object is an index, its entry is its \<open>data\<close> pointer, \<open>None\<close> once the object is
  destroyed), and the schedule of exceptions (\<open>faults\<close>): every primitive of the source
  that may throw (an allocation, a copy of a key or value, a call of the hash function or
  of key equality) reads the next entry of the schedule and throws when it is \<open>True\<close>.
  The value of the expression \<open>V()\<close> of the value type is the field \<open>v_default\<close>.
  An exception is a value \<open>Inl (e, w)\<close> carrying the world at the point it leaves the
  function, so every \<open>catch (...)\<close> block of the source is a branch of the model.
\<close>

subsection \<open>Data\<close>

datatype error = lookup_error | propagated

text \<open>\<open>mapvaluetype\<close>: a \<open>std::list\<close> iterator is the identity of a list node.\<close>

record 'v mapvaluetype =
  iter :: nat
  val :: 'v

text \<open>\<open>map_structure\<close>: a list node is a pair of its identity and the key it holds.\<close>

record ('k, 'v) map_structure =
  mappings :: "'k \<rightharpoonup> 'v mapvaluetype"
  insertions :: "(nat \<times> 'k) list"
  non_const_refs_given :: bool

record ('k, 'v) world =
  heap :: "('k, 'v) map_structure list"
  handles :: "nat option list"
  faults :: "bool list"
  v_default :: 'v

type_synonym ('a, 'k, 'v) result = "(error \<times> ('k, 'v) world) + ('a \<times> ('k, 'v) world)"

subsection \<open>Primitives\<close>

text \<open>A primitive that may throw consumes one entry of the schedule.\<close>

definition may_throw :: "('k, 'v) world \<Rightarrow> (unit, 'k, 'v) result" where
  "may_throw w =
     (let w' = w\<lparr>faults := tl (faults w)\<rparr>
      in if faults w \<noteq> [] \<and> hd (faults w) then Inl (propagated, w') else Inr ((), w'))"

text \<open>\<open>std::list\<close>: a new node gets an identity no node of the list has;
  \<open>erase(iterator)\<close> unlinks the node with that identity.\<close>

definition fresh_node :: "(nat \<times> 'k) list \<Rightarrow> nat" where
  "fresh_node ns = Suc (fold max (map fst ns) 0)"

definition erase_node :: "nat \<Rightarrow> (nat \<times> 'k) list \<Rightarrow> (nat \<times> 'k) list" where
  "erase_node i ns = filter (\<lambda>n. fst n \<noteq> i) ns"

text \<open>\<open>map_structure()\<close>.\<close>

definition new_structure :: "('k, 'v) map_structure" where
  "new_structure = \<lparr>mappings = Map.empty, insertions = [], non_const_refs_given = False\<rparr>"

text \<open>The loop of the copy constructor, \<open>mappings[*it].iter = it\<close> for every node;
  \<open>operator[]\<close> of \<open>std::unordered_map\<close> creates a default entry for an absent key.\<close>

fun relink :: "(nat \<times> 'k) list \<Rightarrow> 'v \<Rightarrow> ('k \<rightharpoonup> 'v mapvaluetype) \<Rightarrow> ('k \<rightharpoonup> 'v mapvaluetype)" where
  "relink [] dv m = m"
| "relink ((i, k) # ns) dv m =
     relink ns dv (m(k \<mapsto> (case m k of None \<Rightarrow> \<lparr>iter = i, val = dv\<rparr> | Some e \<Rightarrow> e\<lparr>iter := i\<rparr>)))"

text \<open>\<open>map_structure(map_structure const &other)\<close>: the index and the list are copied (the
  copied list has nodes of its own), the flag is cleared, and the loop points the copied
  index at the copied nodes.\<close>

definition clone :: "'v \<Rightarrow> ('k, 'v) map_structure \<Rightarrow> ('k, 'v) map_structure" where
  "clone dv other =
     (let ns = zip [0..<length (insertions other)] (map snd (insertions other))
      in \<lparr>mappings = relink ns dv (mappings other), insertions = ns,
          non_const_refs_given = False\<rparr>)"

text \<open>The \<open>data\<close> member of a live container object, \<open>data.use_count()\<close> counted over the
  container objects, and the two writes: to a \<open>data\<close> member and through it.\<close>

definition data :: "('k, 'v) world \<Rightarrow> nat \<Rightarrow> nat" where
  "data w h = the (handles w ! h)"

definition use_count :: "('k, 'v) world \<Rightarrow> nat \<Rightarrow> nat" where
  "use_count w a = count_list (handles w) (Some a)"

definition set_data :: "nat \<Rightarrow> nat \<Rightarrow> ('k, 'v) world \<Rightarrow> ('k, 'v) world" where
  "set_data h a w = w\<lparr>handles := (handles w)[h := Some a]\<rparr>"

definition upd :: "nat \<Rightarrow> (('k, 'v) map_structure \<Rightarrow> ('k, 'v) map_structure) \<Rightarrow>
    ('k, 'v) world \<Rightarrow> ('k, 'v) world" where
  "upd a f w = w\<lparr>heap := (heap w)[a := f (heap w ! a)]\<rparr>"

definition destroy :: "nat \<Rightarrow> ('k, 'v) world \<Rightarrow> ('k, 'v) world" where
  "destroy h w = w\<lparr>handles := (handles w)[h := None]\<rparr>"

subsection \<open>Private members\<close>

text \<open>\<open>copy()\<close>: \<open>data = std::make_shared<map_structure>(*data)\<close>. The allocation and the
  copy constructor may throw; then \<open>data\<close> is not assigned.\<close>

definition copy :: "nat \<Rightarrow> ('k, 'v) world \<Rightarrow> (unit, 'k, 'v) result" where
  "copy h w =
     (case may_throw w of
        Inl e \<Rightarrow> Inl e
      | Inr (_, w1) \<Rightarrow>
          Inr ((), set_data h (length (heap w1))
                     (w1\<lparr>heap := heap w1 @ [clone (v_default w1) (heap w1 ! data w1 h)]\<rparr>)))"

text \<open>\<open>copy_on_write()\<close>: the local \<open>old_struct\<close> is one more owner of the pointee, so
  \<open>use_count()\<close> is the number of container objects pointing to it plus one.\<close>

definition copy_on_write :: "nat \<Rightarrow> ('k, 'v) world \<Rightarrow> (nat, 'k, 'v) result" where
  "copy_on_write h w =
     (let old_struct = data w h
      in if use_count w old_struct + 1 > 2
         then (case copy h w of
                 Inl e \<Rightarrow> Inl e
               | Inr (_, w1) \<Rightarrow> Inr (old_struct, w1))
         else Inr (old_struct, w))"

text \<open>\<open>private_insert(k, v)\<close>. The result pair is the key of the index entry and the flag of
  \<open>std::unordered_map::insert\<close>.\<close>

definition private_insert :: "nat \<Rightarrow> 'k \<Rightarrow> 'v \<Rightarrow> ('k, 'v) world \<Rightarrow> ('k \<times> bool, 'k, 'v) result" where
  "private_insert h k v w =
     (case copy_on_write h w of
        Inl e \<Rightarrow> Inl e
      | Inr (old_data_struct, w1) \<Rightarrow>
          (case may_throw w1 of
             Inl (e, w2) \<Rightarrow> Inl (e, set_data h old_data_struct w2)
           | Inr (_, w2) \<Rightarrow>
               (let a = data w2 h;
                    it = fresh_node (insertions (heap w2 ! a));
                    w3 = upd a (\<lambda>s. s\<lparr>insertions := insertions s @ [(it, k)]\<rparr>) w2
                in case may_throw w3 of
                     Inl (e, w4) \<Rightarrow>
                       Inl (e, set_data h old_data_struct
                                 (upd (data w4 h)
                                    (\<lambda>s. s\<lparr>insertions := erase_node it (insertions s)\<rparr>) w4))
                   | Inr (_, w4) \<Rightarrow>
                       (case mappings (heap w4 ! a) k of
                          None \<Rightarrow>
                            Inr ((k, True),
                                 upd a (\<lambda>s. s\<lparr>mappings := (mappings s)(k \<mapsto> \<lparr>iter = it, val = v\<rparr>),
                                               non_const_refs_given := False\<rparr>) w4)
                        | Some e \<Rightarrow>
                            Inr ((k, False),
                                 upd a (\<lambda>s. s\<lparr>insertions := erase_node (iter e) (insertions s),
                                               mappings := (mappings s)(k \<mapsto> e\<lparr>iter := it\<rparr>),
                                               non_const_refs_given := False\<rparr>) w4)))))"

subsection \<open>Constructors, assignment, destructor\<close>

text \<open>\<open>insertion_ordered_map()\<close>: the new object is the next entry of the table.\<close>

definition construct :: "('k, 'v) world \<Rightarrow> (nat, 'k, 'v) result" where
  "construct w =
     (case may_throw w of
        Inl e \<Rightarrow> Inl e
      | Inr (_, w1) \<Rightarrow>
          Inr (length (handles w1),
               w1\<lparr>heap := heap w1 @ [new_structure],
                  handles := handles w1 @ [Some (length (heap w1))]\<rparr>))"

text \<open>\<open>insertion_ordered_map(insertion_ordered_map const &other)\<close>. When \<open>copy()\<close> throws the
  object under construction is gone.\<close>

definition copy_construct :: "nat \<Rightarrow> ('k, 'v) world \<Rightarrow> (nat, 'k, 'v) result" where
  "copy_construct other w =
     (let h = length (handles w);
          w1 = w\<lparr>handles := handles w @ [Some (data w other)]\<rparr>
      in if non_const_refs_given (heap w1 ! data w1 h)
         then (case copy h w1 of
                 Inl (e, w2) \<Rightarrow> Inl (e, destroy h w2)
               | Inr (_, w2) \<Rightarrow> Inr (h, w2))
         else Inr (h, w1))"

text \<open>\<open>insertion_ordered_map(insertion_ordered_map &&other)\<close>.\<close>

definition move_construct :: "nat \<Rightarrow> ('k, 'v) world \<Rightarrow> (nat, 'k, 'v) result" where
  "move_construct other w =
     (let h = length (handles w);
          w1 = w\<lparr>handles := handles w @ [Some (data w other)]\<rparr>
      in case may_throw w1 of
           Inl (e, w2) \<Rightarrow> Inl (e, destroy h w2)
         | Inr (_, w2) \<Rightarrow>
             Inr (h, set_data other (length (heap w2)) (w2\<lparr>heap := heap w2 @ [new_structure]\<rparr>)))"

text \<open>\<open>operator=(insertion_ordered_map other)\<close> called with an lvalue \<open>src\<close>: the parameter is
  copy-constructed from \<open>src\<close>, and destroyed when the operator returns or throws.\<close>

definition assign :: "nat \<Rightarrow> nat \<Rightarrow> ('k, 'v) world \<Rightarrow> (unit, 'k, 'v) result" where
  "assign h src w =
     (case copy_construct src w of
        Inl e \<Rightarrow> Inl e
      | Inr (other, w1) \<Rightarrow>
          (if non_const_refs_given (heap w1 ! data w1 other)
           then (case may_throw w1 of
                   Inl (e, w2) \<Rightarrow> Inl (e, destroy other w2)
                 | Inr (_, w2) \<Rightarrow>
                     Inr ((), destroy other
                       (set_data h (length (heap w2))
                          (w2\<lparr>heap := heap w2 @ [clone (v_default w2) (heap w2 ! data w2 other)]\<rparr>))))
           else Inr ((), destroy other (set_data h (data w1 other) w1))))"

subsection \<open>Queries\<close>

text \<open>\<open>contains(k)\<close>: \<open>mappings.count(k)\<close> calls the hash function.\<close>

definition contains :: "nat \<Rightarrow> 'k \<Rightarrow> ('k, 'v) world \<Rightarrow> (bool, 'k, 'v) result" where
  "contains h k w =
     (case may_throw w of
        Inl e \<Rightarrow> Inl e
      | Inr (_, w1) \<Rightarrow> Inr (mappings (heap w1 ! data w1 h) k \<noteq> None, w1))"

text \<open>\<open>size()\<close> and \<open>empty()\<close> are \<open>noexcept\<close>.\<close>

definition size_iom :: "nat \<Rightarrow> ('k, 'v) world \<Rightarrow> nat \<times> ('k, 'v) world" where
  "size_iom h w = (length (insertions (heap w ! data w h)), w)"

definition empty_iom :: "nat \<Rightarrow> ('k, 'v) world \<Rightarrow> bool \<times> ('k, 'v) world" where
  "empty_iom h w = (case size_iom h w of (n, w1) \<Rightarrow> (n = 0, w1))"

text \<open>\<open>std::unordered_map::at\<close> on the pointee at address \<open>a\<close>: hashes, and throws
  \<open>std::out_of_range\<close> for an absent key.\<close>

definition mappings_at :: "nat \<Rightarrow> 'k \<Rightarrow> ('k, 'v) world \<Rightarrow> ('v, 'k, 'v) result" where
  "mappings_at a k w =
     (case may_throw w of
        Inl e \<Rightarrow> Inl e
      | Inr (_, w1) \<Rightarrow>
          (case mappings (heap w1 ! a) k of
             None \<Rightarrow> Inl (propagated, w1)
           | Some e \<Rightarrow> Inr (val e, w1)))"

text \<open>\<open>V const &at(K const &k) const\<close>.\<close>

definition at_const :: "nat \<Rightarrow> 'k \<Rightarrow> ('k, 'v) world \<Rightarrow> ('v, 'k, 'v) result" where
  "at_const h k w =
     (case contains h k w of
        Inl e \<Rightarrow> Inl e
      | Inr (c, w1) \<Rightarrow>
          if c = False then Inl (lookup_error, w1)
          else mappings_at (data w1 h) k w1)"

subsection \<open>Mutating operations\<close>

text \<open>\<open>insert(k, v)\<close>.\<close>

definition insert_iom :: "nat \<Rightarrow> 'k \<Rightarrow> 'v \<Rightarrow> ('k, 'v) world \<Rightarrow> (bool, 'k, 'v) result" where
  "insert_iom h k v w =
     (case private_insert h k v w of
        Inl e \<Rightarrow> Inl e
      | Inr (r, w1) \<Rightarrow> Inr (snd r, w1))"

text \<open>\<open>erase(k)\<close>. \<open>find\<close> cannot return \<open>end()\<close> after \<open>contains\<close> returned true (a clone
  has every key of its original); that branch of the model returns the world as it is.\<close>

definition erase :: "nat \<Rightarrow> 'k \<Rightarrow> ('k, 'v) world \<Rightarrow> (unit, 'k, 'v) result" where
  "erase h k w =
     (case contains h k w of
        Inl e \<Rightarrow> Inl e
      | Inr (c, w0) \<Rightarrow>
          if c = False then Inl (lookup_error, w0)
          else
            (case copy_on_write h w0 of
               Inl e \<Rightarrow> Inl e
             | Inr (old_data_struct, w1) \<Rightarrow>
                 (case may_throw w1 of
                    Inl (e, w2) \<Rightarrow> Inl (e, set_data h old_data_struct w2)
                  | Inr (_, w2) \<Rightarrow>
                      (case mappings (heap w2 ! data w2 h) k of
                         None \<Rightarrow> Inr ((), w2)
                       | Some e \<Rightarrow>
                           Inr ((), upd (data w2 h)
                                  (\<lambda>s. s\<lparr>insertions := erase_node (iter e) (insertions s),
                                        mappings := (mappings s)(k := None),
                                        non_const_refs_given := False\<rparr>) w2)))))"

text \<open>\<open>V &at(K const &k)\<close>. The reference returned is the address of the pointee and the
  key of the entry whose \<open>value\<close> member it refers to.\<close>

definition at :: "nat \<Rightarrow> 'k \<Rightarrow> ('k, 'v) world \<Rightarrow> (nat \<times> 'k, 'k, 'v) result" where
  "at h k w =
     (case contains h k w of
        Inl e \<Rightarrow> Inl e
      | Inr (c, w0) \<Rightarrow>
          if c = False then Inl (lookup_error, w0)
          else
            (case copy_on_write h w0 of
               Inl e \<Rightarrow> Inl e
             | Inr (old_data_struct, w1) \<Rightarrow>
                 (let w2 = upd (data w1 h) (\<lambda>s. s\<lparr>non_const_refs_given := True\<rparr>) w1
                  in case mappings_at (data w2 h) k w2 of
                       Inl (e, w3) \<Rightarrow>
                         Inl (e, set_data h old_data_struct
                                   (upd (data w3 h) (\<lambda>s. s\<lparr>non_const_refs_given := False\<rparr>) w3))
                     | Inr (_, w3) \<Rightarrow> Inr ((data w3 h, k), w3))))"

text \<open>A write through a reference returned by \<open>at\<close> or \<open>operator[]\<close>. Writing through a
  reference whose entry is gone is undefined in C++; the model leaves the world as it is.\<close>

definition ref_assign :: "nat \<times> 'k \<Rightarrow> 'v \<Rightarrow> ('k, 'v) world \<Rightarrow> ('k, 'v) world" where
  "ref_assign r v w =
     upd (fst r)
       (\<lambda>s. case mappings s (snd r) of
              None \<Rightarrow> s
            | Some e \<Rightarrow> s\<lparr>mappings := (mappings s)(snd r \<mapsto> e\<lparr>val := v\<rparr>)\<rparr>) w"

text \<open>\<open>V &operator[](K const &k)\<close>; \<open>V()\<close> is constructed before \<open>private_insert\<close> runs.\<close>

definition subscript :: "nat \<Rightarrow> 'k \<Rightarrow> ('k, 'v) world \<Rightarrow> (nat \<times> 'k, 'k, 'v) result" where
  "subscript h k w =
     (case may_throw w of
        Inl e \<Rightarrow> Inl e
      | Inr (_, w0) \<Rightarrow>
          (case private_insert h k (v_default w0) w0 of
             Inl e \<Rightarrow> Inl e
           | Inr (insertion_result, w1) \<Rightarrow>
               (case at h k w1 of
                  Inr r \<Rightarrow> Inr r
                | Inl (e, w2) \<Rightarrow>
                    if snd insertion_result = True
                    then Inl (e, upd (data w2 h)
                                   (\<lambda>s. s\<lparr>mappings := (mappings s)(fst insertion_result := None),
                                         insertions := butlast (insertions s)\<rparr>) w2)
                    else Inl (e, w2))))"

text \<open>\<open>clear()\<close>.\<close>

definition clear :: "nat \<Rightarrow> ('k, 'v) world \<Rightarrow> (unit, 'k, 'v) result" where
  "clear h w =
     (case copy_on_write h w of
        Inl e \<Rightarrow> Inl e
      | Inr (_, w1) \<Rightarrow>
          Inr ((), upd (data w1 h)
                 (\<lambda>s. s\<lparr>mappings := Map.empty, insertions := [],
                       non_const_refs_given := False\<rparr>) w1))"

text \<open>\<open>merge(other)\<close>. The loop \<open>for (auto k : other.data->insertions)\<close> runs over the keys
  of \<open>other\<close>; copying a key into \<open>k\<close> may throw. The list it runs over is not written
  during the loop, because \<open>copy()\<close> has given this object a pointee of its own.\<close>

fun merge_loop :: "nat \<Rightarrow> nat \<Rightarrow> 'k list \<Rightarrow> ('k, 'v) world \<Rightarrow> (unit, 'k, 'v) result" where
  "merge_loop h other [] w = Inr ((), w)"
| "merge_loop h other (k # ks) w =
     (case may_throw w of
        Inl e \<Rightarrow> Inl e
      | Inr (_, w0) \<Rightarrow>
          (case at_const other k w0 of
             Inl e \<Rightarrow> Inl e
           | Inr (v, w1) \<Rightarrow>
               (case insert_iom h k v w1 of
                  Inl e \<Rightarrow> Inl e
                | Inr (_, w2) \<Rightarrow> merge_loop h other ks w2)))"

definition merge_iom :: "nat \<Rightarrow> nat \<Rightarrow> ('k, 'v) world \<Rightarrow> (unit, 'k, 'v) result" where
  "merge_iom h other w =
     (if other = h then Inr ((), w)
      else
        (let backup_data = data w h
         in case copy h w of
              Inl (e, w1) \<Rightarrow> Inl (e, set_data h backup_data w1)
            | Inr (_, w1) \<Rightarrow>
                (case merge_loop h other (map snd (insertions (heap w1 ! data w1 other))) w1 of
                   Inl (e, w2) \<Rightarrow> Inl (e, set_data h backup_data w2)
                 | Inr (_, w2) \<Rightarrow>
                     Inr ((), upd (data w2 h) (\<lambda>s. s\<lparr>non_const_refs_given := False\<rparr>) w2))))"

subsection \<open>Iterators\<close>

text \<open>\<open>class iterator\<close>: a position in a list (the address of the pointee whose list it is,
  and a node of that list, or \<open>None\<close> for the position past the last node) and the container
  object it was taken from. The position stays in the list it was taken from, also when
  the container gets another pointee.\<close>

record iterator =
  it_iter :: "nat option"
  it_list :: nat
  it_ptr :: nat

definition begin_iom :: "nat \<Rightarrow> ('k, 'v) world \<Rightarrow> iterator \<times> ('k, 'v) world" where
  "begin_iom h w =
     (\<lparr>it_iter = (case insertions (heap w ! data w h) of [] \<Rightarrow> None | n # _ \<Rightarrow> Some (fst n)),
       it_list = data w h, it_ptr = h\<rparr>, w)"

definition end_iom :: "nat \<Rightarrow> ('k, 'v) world \<Rightarrow> iterator \<times> ('k, 'v) world" where
  "end_iom h w = (\<lparr>it_iter = None, it_list = data w h, it_ptr = h\<rparr>, w)"

text \<open>\<open>operator++\<close>: the node after the current one, in the list of the position.
  Incrementing the position past the last node is undefined in C++; the model stays
  there.\<close>

definition increment :: "iterator \<Rightarrow> ('k, 'v) world \<Rightarrow> iterator \<times> ('k, 'v) world" where
  "increment it w =
     (case it_iter it of
        None \<Rightarrow> (it, w)
      | Some i \<Rightarrow>
          (it\<lparr>it_iter :=
               (case dropWhile (\<lambda>n. fst n \<noteq> i) (insertions (heap w ! it_list it)) of
                  _ # n # _ \<Rightarrow> Some (fst n)
                | _ \<Rightarrow> None)\<rparr>, w))"

text \<open>\<open>operator*\<close>: \<open>pair_type(*iter, ptr->at(*iter))\<close>: the key is read from the node of
  the position, in the list of the position, and looked up with the read-only \<open>at\<close> in the
  pointee the container has now. Dereferencing the position past the last node, or a node
  that has been erased, is undefined in C++; the model has no result for it.\<close>

definition dereference :: "iterator \<Rightarrow> ('k, 'v) world \<Rightarrow> (('k \<times> 'v) option, 'k, 'v) result" where
  "dereference it w =
     (case it_iter it of
        None \<Rightarrow> Inr (None, w)
      | Some i \<Rightarrow>
          (case map_of (insertions (heap w ! it_list it)) i of
             None \<Rightarrow> Inr (None, w)
           | Some k \<Rightarrow>
               (case at_const (it_ptr it) k w of
                  Inl e \<Rightarrow> Inl e
                | Inr (v, w1) \<Rightarrow> Inr (Some (k, v), w1))))"

subsection \<open>What a caller can observe\<close>

text \<open>The world after a call, whether it returned or threw.\<close>

definition outcome :: "('a, 'k, 'v) result \<Rightarrow> ('k, 'v) world" where
  "outcome r = (case r of Inl (e, w) \<Rightarrow> w | Inr (x, w) \<Rightarrow> w)"

text \<open>The pointee of a container object, the keys in iteration order, and the stored value
  of a key (what \<open>contains\<close> and the read-only \<open>at\<close> report when nothing throws).\<close>

definition pointee :: "('k, 'v) world \<Rightarrow> nat \<Rightarrow> ('k, 'v) map_structure" where
  "pointee w h = heap w ! data w h"

definition order :: "('k, 'v) world \<Rightarrow> nat \<Rightarrow> 'k list" where
  "order w h = map snd (insertions (pointee w h))"

definition lookup :: "('k, 'v) world \<Rightarrow> nat \<Rightarrow> 'k \<Rightarrow> 'v option" where
  "lookup w h k = map_option val (mappings (pointee w h) k)"

text \<open>The world before any container exists.\<close>

definition init :: "bool list \<Rightarrow> 'v \<Rightarrow> ('k, 'v) world" where
  "init fs dv = \<lparr>heap = [], handles = [], faults = fs, v_default = dv\<rparr>"

section \<open>Notions used in the statements\<close>

text \<open>A container object is live from its construction to its destruction, and a world
  is well-formed when every \<open>data\<close> pointer points into the store.\<close>

definition live :: "('k, 'v) world \<Rightarrow> nat \<Rightarrow> bool" where
  "live w h = (h < length (handles w) \<and> handles w ! h \<noteq> None)"

definition handles_ok :: "('k, 'v) world \<Rightarrow> bool" where
  "handles_ok w =
     (\<forall>p\<in>set (handles w). case p of None \<Rightarrow> True | Some a \<Rightarrow> a < length (heap w))"

text \<open>Two worlds with the same store and the same container objects: they differ at most
  in the schedule of exceptions still to come.\<close>

definition store_eq :: "('k, 'v) world \<Rightarrow> ('k, 'v) world \<Rightarrow> bool" where
  "store_eq w w' = (heap w' = heap w \<and> handles w' = handles w \<and> v_default w' = v_default w)"

text \<open>The effect of the copy-on-write step when nothing throws: \<open>cloned\<close> gives the object
  a pointee of its own, \<open>owned\<close> does so when another object points to its pointee, and
  \<open>apply_op\<close> then writes through the pointer.\<close>

definition cloned :: "nat \<Rightarrow> ('k, 'v) world \<Rightarrow> ('k, 'v) world" where
  "cloned h w =
     set_data h (length (heap w)) (w\<lparr>heap := heap w @ [clone (v_default w) (heap w ! data w h)]\<rparr>)"

definition owned :: "nat \<Rightarrow> ('k, 'v) world \<Rightarrow> ('k, 'v) world" where
  "owned h w = (if 1 < use_count w (data w h) then cloned h w else w)"

definition apply_op :: "nat \<Rightarrow> (('k, 'v) map_structure \<Rightarrow> ('k, 'v) map_structure) \<Rightarrow>
    ('k, 'v) world \<Rightarrow> ('k, 'v) world" where
  "apply_op h f w = upd (data (owned h w) h) f (owned h w)"

text \<open>What the mutating operations do to a pointee they own.\<close>

definition ins :: "'k \<Rightarrow> 'v \<Rightarrow> ('k, 'v) map_structure \<Rightarrow> ('k, 'v) map_structure" where
  "ins k v s =
     (let it = fresh_node (insertions s)
      in case mappings s k of
           None \<Rightarrow> s\<lparr>insertions := insertions s @ [(it, k)],
                      mappings := (mappings s)(k \<mapsto> \<lparr>iter = it, val = v\<rparr>),
                      non_const_refs_given := False\<rparr>
         | Some e \<Rightarrow> s\<lparr>insertions := erase_node (iter e) (insertions s @ [(it, k)]),
                        mappings := (mappings s)(k \<mapsto> e\<lparr>iter := it\<rparr>),
                        non_const_refs_given := False\<rparr>)"

definition del :: "'k \<Rightarrow> ('k, 'v) map_structure \<Rightarrow> ('k, 'v) map_structure" where
  "del k s =
     (case mappings s k of
        None \<Rightarrow> s
      | Some e \<Rightarrow> s\<lparr>insertions := erase_node (iter e) (insertions s),
                     mappings := (mappings s)(k := None),
                     non_const_refs_given := False\<rparr>)"

definition clr :: "('k, 'v) map_structure \<Rightarrow> ('k, 'v) map_structure" where
  "clr s = s\<lparr>mappings := Map.empty, insertions := [], non_const_refs_given := False\<rparr>"

definition set_flag :: "bool \<Rightarrow> ('k, 'v) map_structure \<Rightarrow> ('k, 'v) map_structure" where
  "set_flag b s = s\<lparr>non_const_refs_given := b\<rparr>"

text \<open>A call that throws after the copy-on-write step leaves the clone behind, owned by
  nobody: the container objects and every pointee they point to are as before.\<close>

definition rolled_back :: "nat \<Rightarrow> ('k, 'v) world \<Rightarrow> ('k, 'v) world \<Rightarrow> bool" where
  "rolled_back h w w' =
     (handles w' = handles w \<and> v_default w' = v_default w \<and>
      (heap w' = heap w \<or> heap w' = heap w @ [clone (v_default w) (pointee w h)]))"

text \<open>The nodes of the list are distinct, no key is held by two nodes, the keys of the
  index are the keys of the list, and the iterator stored for a key is the node holding it.\<close>

definition struct_inv :: "('k, 'v) map_structure \<Rightarrow> bool" where
  "struct_inv s =
     (distinct (map fst (insertions s)) \<and> distinct (map snd (insertions s)) \<and>
      dom (mappings s) = set (map snd (insertions s)) \<and>
      (\<forall>n\<in>set (insertions s). map_option iter (mappings s (snd n)) = Some (fst n)))"

definition world_inv :: "('k, 'v) world \<Rightarrow> bool" where
  "world_inv w = (handles_ok w \<and> (\<forall>s\<in>set (heap w). struct_inv s))"

text \<open>Two containers sharing one pointee that holds \<open>a \<mapsto> 1\<close> and \<open>b \<mapsto> 2\<close>, inserted in
  that order.\<close>

definition shared_ab :: "(string, int) world" where
  "shared_ab =
     \<lparr>heap = [\<lparr>mappings = [''a'' \<mapsto> \<lparr>iter = 0, val = 1\<rparr>, ''b'' \<mapsto> \<lparr>iter = 1, val = 2\<rparr>],
               insertions = [(0, ''a''), (1, ''b'')],
               non_const_refs_given = False\<rparr>],
      handles = [Some 0, Some 0], faults = [], v_default = 0\<rparr>"

text \<open>A caller inserting the pairs of a list one after the other, stopping at the first call
  that throws.\<close>

fun insert_all :: "nat \<Rightarrow> ('k \<times> 'v) list \<Rightarrow> ('k, 'v) world \<Rightarrow> (bool list, 'k, 'v) result" where
  "insert_all h [] w = Inr ([], w)"
| "insert_all h ((k, v) # kvs) w =
     (case insert_iom h k v w of
        Inl e \<Rightarrow> Inl e
      | Inr (b, w1) \<Rightarrow>
          (case insert_all h kvs w1 of
             Inl e \<Rightarrow> Inl e
           | Inr (bs, w2) \<Rightarrow> Inr (b # bs, w2)))"

text \<open>\<open>frame h w w'\<close>: from \<open>w\<close> to \<open>w'\<close> every container other than \<open>h\<close> keeps its pointer and
  its pointee (index, list and flag), the same containers are live, and \<open>w'\<close> is
  well-formed.\<close>

definition frame :: "nat \<Rightarrow> ('k, 'v) world \<Rightarrow> ('k, 'v) world \<Rightarrow> bool" where
  "frame h w w' =
     (handles_ok w' \<and> v_default w' = v_default w \<and> (\<forall>b. live w' b = live w b) \<and>
      (\<forall>b. b \<noteq> h \<and> live w b \<longrightarrow> data w' b = data w b \<and> pointee w' b = pointee w b))"

text \<open>The rollback of \<open>operator[]\<close>: \<open>mappings.erase(insertion_result.first)\<close> and
  \<open>insertions.pop_back()\<close>.\<close>

definition undo_insert :: "'k \<Rightarrow> ('k, 'v) map_structure \<Rightarrow> ('k, 'v) map_structure" where
  "undo_insert k s = s\<lparr>mappings := (mappings s)(k := None), insertions := butlast (insertions s)\<rparr>"

text \<open>\<open>same_view w w' h\<close>: container \<open>h\<close> shows a caller the same in \<open>w'\<close> as in \<open>w\<close>: the same
  keys in the same iteration order (so the same \<open>size()\<close>) and the same value, or absence,
  for every key (so the same \<open>contains\<close>).\<close>

definition same_view :: "('k, 'v) world \<Rightarrow> ('k, 'v) world \<Rightarrow> nat \<Rightarrow> bool" where
  "same_view w w' h = (order w' h = order w h \<and> (\<forall>k. lookup w' h k = lookup w h k))"

text \<open>A container of its own holding \<open>a \<mapsto> 1\<close> and \<open>b \<mapsto> 2\<close>, in a world where the fourth
  primitive that may throw does throw. In \<open>operator[]\<close> that primitive is the hash call of
  \<open>contains\<close> inside \<open>at\<close>: \<open>V()\<close>, the list insertion and the index insertion of
  \<open>private_insert\<close> come before it.\<close>

definition single_ab :: "(string, int) world" where
  "single_ab =
     \<lparr>heap = [\<lparr>mappings = [''a'' \<mapsto> \<lparr>iter = 0, val = 1\<rparr>, ''b'' \<mapsto> \<lparr>iter = 1, val = 2\<rparr>],
               insertions = [(0, ''a''), (1, ''b'')],
               non_const_refs_given = False\<rparr>],
      handles = [Some 0], faults = [False, False, False, True], v_default = 0\<rparr>"

text \<open>\<open>quiet h w w'\<close>: a step of a call on \<open>h\<close> that leaves every \<open>data\<close> pointer as it is
  and writes to no pointee but the one of \<open>h\<close>.\<close>

definition quiet :: "nat \<Rightarrow> ('k, 'v) world \<Rightarrow> ('k, 'v) world \<Rightarrow> bool" where
  "quiet h w w' =
     (frame h w w' \<and> handles w' = handles w \<and> length (heap w) \<le> length (heap w') \<and>
      (\<forall>a<length (heap w). a \<noteq> data w h \<longrightarrow> heap w' ! a = heap w ! a) \<and>
      (world_inv w \<longrightarrow> world_inv w'))"

text \<open>What \<open>insert(k, v)\<close> does to what a caller sees of a container, the iteration order and
  the values: \<open>k\<close> becomes the last key, and gets the value \<open>v\<close> unless it has one.\<close>

definition ins_view :: "'k \<Rightarrow> 'v \<Rightarrow> 'k list \<times> ('k \<rightharpoonup> 'v) \<Rightarrow> 'k list \<times> ('k \<rightharpoonup> 'v)" where
  "ins_view k v ol =
     (filter (\<lambda>x. x \<noteq> k) (fst ol) @ [k],
      (snd ol)(k := (case snd ol k of None \<Rightarrow> Some v | Some x \<Rightarrow> Some x)))"

definition view :: "('k, 'v) map_structure \<Rightarrow> 'k list \<times> ('k \<rightharpoonup> 'v)" where
  "view s = (map snd (insertions s), \<lambda>k. map_option val (mappings s k))"

text \<open>Two containers with pointees of their own: \<open>0\<close> holds \<open>x \<mapsto> 1\<close>, and \<open>1\<close> holds \<open>x \<mapsto> 2\<close>
  and \<open>y \<mapsto> 3\<close>, inserted in that order.\<close>

definition x_and_xy :: "(string, int) world" where
  "x_and_xy =
     \<lparr>heap = [\<lparr>mappings = [''x'' \<mapsto> \<lparr>iter = 0, val = 1\<rparr>],
               insertions = [(0, ''x'')], non_const_refs_given = False\<rparr>,
              \<lparr>mappings = [''x'' \<mapsto> \<lparr>iter = 0, val = 2\<rparr>, ''y'' \<mapsto> \<lparr>iter = 1, val = 3\<rparr>],
               insertions = [(0, ''x''), (1, ''y'')], non_const_refs_given = False\<rparr>],
      handles = [Some 0, Some 1], faults = [], v_default = 0\<rparr>"

text \<open>The worlds a program can bring about: it starts with no container, and calls the
  public operations on live containers; the environment chooses which primitives throw.
  A write through a reference is a write to the value of some entry of some pointee.\<close>

inductive reachable :: "('k, 'v) world \<Rightarrow> bool" where
  start: "reachable (init fs dv)"
| schedule: "reachable w \<Longrightarrow> reachable (w\<lparr>faults := fs\<rparr>)"
| construct: "reachable w \<Longrightarrow> reachable (outcome (construct w))"
| copy_construct: "reachable w \<Longrightarrow> live w h \<Longrightarrow> reachable (outcome (copy_construct h w))"
| move_construct: "reachable w \<Longrightarrow> live w h \<Longrightarrow> reachable (outcome (move_construct h w))"
| assign: "reachable w \<Longrightarrow> live w h \<Longrightarrow> live w src \<Longrightarrow> reachable (outcome (assign h src w))"
| destroy: "reachable w \<Longrightarrow> live w h \<Longrightarrow> reachable (destroy h w)"
| insert: "reachable w \<Longrightarrow> live w h \<Longrightarrow> reachable (outcome (insert_iom h k v w))"
| erase: "reachable w \<Longrightarrow> live w h \<Longrightarrow> reachable (outcome (erase h k w))"
| merge: "reachable w \<Longrightarrow> live w h \<Longrightarrow> live w other \<Longrightarrow> reachable (outcome (merge_iom h other w))"
| at: "reachable w \<Longrightarrow> live w h \<Longrightarrow> reachable (outcome (at h k w))"
| at_const: "reachable w \<Longrightarrow> live w h \<Longrightarrow> reachable (outcome (at_const h k w))"
| subscript: "reachable w \<Longrightarrow> live w h \<Longrightarrow> reachable (outcome (subscript h k w))"
| clear: "reachable w \<Longrightarrow> live w h \<Longrightarrow> reachable (outcome (clear h w))"
| contains: "reachable w \<Longrightarrow> live w h \<Longrightarrow> reachable (outcome (contains h k w))"
| size: "reachable w \<Longrightarrow> live w h \<Longrightarrow> reachable (snd (size_iom h w))"
| empty: "reachable w \<Longrightarrow> live w h \<Longrightarrow> reachable (snd (empty_iom h w))"
| dereference: "reachable w \<Longrightarrow> live w (it_ptr it) \<Longrightarrow> reachable (outcome (dereference it w))"
| ref_write: "reachable w \<Longrightarrow> reachable (ref_assign r v w)"

text \<open>The invariant in the words of the data model: the list has as many elements as the
  index has keys; the position stored for a key is a node of the list holding that key; no
  two keys of the index store the same position.\<close>

definition index_matches_order :: "('k, 'v) map_structure \<Rightarrow> bool" where
  "index_matches_order s =
     (length (insertions s) = card (dom (mappings s)) \<and>
      (\<forall>k e. mappings s k = Some e \<longrightarrow> (iter e, k) \<in> set (insertions s)) \<and>
      inj_on (\<lambda>k. iter (the (mappings s k))) (dom (mappings s)))"

text \<open>A program: construct a container, insert \<open>a\<close>, copy the container, insert \<open>b\<close> into
  the copy.\<close>

definition copy_then_insert :: "(string, int) world" where
  "copy_then_insert =
     outcome (insert_iom 1 ''b'' 2
       (outcome (copy_construct 0
         (outcome (insert_iom 0 ''a'' 1
           (outcome (construct (init [] 0))))))))"

text \<open>\<open>unchanged_by_calls_on w a b\<close>: whatever mutating operation is called on container \<open>a\<close>
  in the world \<open>w\<close>, and whether it returns or throws, container \<open>b\<close> shows afterwards what it
  showed before; so it does after a write through the reference that \<open>at\<close> or \<open>operator[]\<close>
  returned.\<close>

definition unchanged_by_calls_on :: "('k, 'v) world \<Rightarrow> nat \<Rightarrow> nat \<Rightarrow> bool" where
  "unchanged_by_calls_on w a b =
     (\<forall>k v c.
        same_view w (outcome (insert_iom a k v w)) b \<and>
        same_view w (outcome (erase a k w)) b \<and>
        same_view w (outcome (subscript a k w)) b \<and>
        same_view w (outcome (at a k w)) b \<and>
        (live w c \<longrightarrow> same_view w (outcome (merge_iom a c w)) b) \<and>
        same_view w (outcome (clear a w)) b \<and>
        (\<forall>r w'. at a k w = Inr (r, w') \<longrightarrow> same_view w (ref_assign r v w') b) \<and>
        (\<forall>r w'. subscript a k w = Inr (r, w') \<longrightarrow> same_view w (ref_assign r v w') b))"

text \<open>\<open>flag_reset w' h\<close>: in \<open>w'\<close> the flag of the pointee of \<open>h\<close> is clear, and the copy
  constructor called on \<open>h\<close> returns a container that points to the pointee of \<open>h\<close>.\<close>

definition flag_reset :: "('k, 'v) world \<Rightarrow> nat \<Rightarrow> bool" where
  "flag_reset w' h =
     (\<not> non_const_refs_given (pointee w' h) \<and>
      (\<exists>c w''. copy_construct h w' = Inr (c, w'') \<and> c \<noteq> h \<and> live w'' c \<and>
         data w'' c = data w'' h \<and> data w'' h = data w' h))"

text \<open>A container that has handed out a reference: construct it, then call \<open>operator[]\<close>.\<close>

definition escaped_a :: "(string, int) world" where
  "escaped_a = outcome (subscript 0 ''a'' (outcome (construct (init [] 0))))"

text \<open>Two containers with pointees of their own; the first has handed out a reference to the
  value of \<open>a\<close>, so the flag of its pointee is set.\<close>

definition escaped_pair :: "(string, int) world" where
  "escaped_pair =
     \<lparr>heap = [\<lparr>mappings = [''a'' \<mapsto> \<lparr>iter = 0, val = 1\<rparr>],
               insertions = [(0, ''a'')], non_const_refs_given = True\<rparr>,
              \<lparr>mappings = [''b'' \<mapsto> \<lparr>iter = 0, val = 2\<rparr>],
               insertions = [(0, ''b'')], non_const_refs_given = False\<rparr>],
      handles = [Some 0, Some 1], faults = [], v_default = 0\<rparr>"

text \<open>A caller's loop \<open>for (auto it = m.begin(); it != m.end(); ++it)\<close> that collects \<open>*it\<close>,
  with a bound on the number of steps; \<open>traverse\<close> gives it one step more than \<open>size()\<close>, and
  stops at the first dereference that throws.\<close>

fun walk :: "nat \<Rightarrow> iterator \<Rightarrow> ('k, 'v) world \<Rightarrow> ('k \<times> 'v) list" where
  "walk 0 it w = []"
| "walk (Suc n) it w =
     (if it_iter it = it_iter (fst (end_iom (it_ptr it) w)) then []
      else (case dereference it w of
              Inr (Some kv, w1) \<Rightarrow> kv # walk n (fst (increment it w1)) w1
            | _ \<Rightarrow> []))"

definition traverse :: "nat \<Rightarrow> ('k, 'v) world \<Rightarrow> ('k \<times> 'v) list" where
  "traverse h w = walk (Suc (fst (size_iom h w))) (fst (begin_iom h w)) w"

section \<open>Reading and comparing worlds\<close>

subsection \<open>Lists of nodes and of handles\<close>

lemma fold_max_ge: "a \<le> fold max xs (a::nat)"
  by (induction xs arbitrary: a) (auto intro: order_trans[OF max.cobounded2])

lemma fold_max_mem: "x \<in> set xs \<Longrightarrow> x \<le> fold max xs (a::nat)"
proof (induction xs arbitrary: a)
  case Nil
  then show ?case by simp
next
  case (Cons y ys)
  show ?case
  proof (cases "x = y")
    case True
    have "y \<le> max y a" by simp
    also have "\<dots> \<le> fold max ys (max y a)" by (rule fold_max_ge)
    finally show ?thesis using True by simp
  next
    case False
    with Cons show ?thesis by simp
  qed
qed

lemma fresh_node_notin: "fresh_node ns \<notin> fst ` set ns"
proof
  assume "fresh_node ns \<in> fst ` set ns"
  then have "fresh_node ns \<in> set (map fst ns)" by simp
  then have "fresh_node ns \<le> fold max (map fst ns) 0" by (rule fold_max_mem)
  then show False by (simp add: fresh_node_def)
qed

lemma erase_fresh: "erase_node (fresh_node ns) (ns @ [(fresh_node ns, k)]) = ns"
proof -
  have "\<forall>n\<in>set ns. fst n \<noteq> fresh_node ns" using fresh_node_notin[of ns] by force
  then show ?thesis by (simp add: erase_node_def)
qed

lemma count_list_two:
  "i < length xs \<Longrightarrow> j < length xs \<Longrightarrow> i \<noteq> j \<Longrightarrow> xs ! i = x \<Longrightarrow> xs ! j = x \<Longrightarrow>
   2 \<le> count_list xs x"
proof (induction xs arbitrary: i j)
  case Nil
  then show ?case by simp
next
  case (Cons y ys)
  show ?case
  proof (cases i)
    case 0
    then obtain j' where j: "j = Suc j'" using Cons.prems(3) by (cases j) auto
    then have "x \<in> set ys" using Cons.prems(2,5) by auto
    then have "0 < count_list ys x" using count_list_0_iff[of ys x] by auto
    then show ?thesis using 0 Cons.prems(4) by simp
  next
    case (Suc i')
    show ?thesis
    proof (cases j)
      case 0
      have "x \<in> set ys" using Suc Cons.prems(1,4) by auto
      then have "0 < count_list ys x" using count_list_0_iff[of ys x] by auto
      then show ?thesis using 0 Cons.prems(5) by simp
    next
      case (Suc j')
      have "2 \<le> count_list ys x"
        using Cons.IH[of i' j'] Cons.prems \<open>i = Suc i'\<close> Suc by simp
      then show ?thesis by simp
    qed
  qed
qed

lemma data_less: "handles_ok w \<Longrightarrow> live w h \<Longrightarrow> data w h < length (heap w)"
proof -
  assume ok: "handles_ok w" and l: "live w h"
  from l obtain a where a: "handles w ! h = Some a" and h: "h < length (handles w)"
    by (auto simp: live_def)
  then have "Some a \<in> set (handles w)" by (metis nth_mem)
  with ok have "a < length (heap w)" by (force simp: handles_ok_def)
  then show ?thesis using a by (simp add: data_def)
qed

lemma other_pointee:
  assumes "live w h" "live w b" "b \<noteq> h" "\<not> 1 < use_count w (data w h)"
  shows "data w b \<noteq> data w h"
proof
  assume eq: "data w b = data w h"
  from assms(1,2) have "handles w ! h = Some (data w h)" "handles w ! b = Some (data w h)"
    using eq by (auto simp: live_def data_def)
  then have "2 \<le> count_list (handles w) (Some (data w h))"
    using count_list_two[of h "handles w" b] assms(1,2,3) by (simp add: live_def)
  then show False using assms(4) by (simp add: use_count_def)
qed

subsection \<open>Worlds with the same store\<close>

lemma store_eq_refl: "store_eq w w"
  by (simp add: store_eq_def)

lemma store_eq_trans: "store_eq w w' \<Longrightarrow> store_eq w' w'' \<Longrightarrow> store_eq w w''"
  by (simp add: store_eq_def)

lemma store_eq_faults: "store_eq w (w\<lparr>faults := fs\<rparr>)"
  by (simp add: store_eq_def)

lemma store_eq_data: "store_eq w w' \<Longrightarrow> data w' h = data w h"
  by (simp add: store_eq_def data_def)

lemma store_eq_pointee: "store_eq w w' \<Longrightarrow> pointee w' h = pointee w h"
  by (simp add: store_eq_def pointee_def data_def)

lemma store_eq_order: "store_eq w w' \<Longrightarrow> order w' h = order w h"
  by (simp add: order_def store_eq_pointee)

lemma store_eq_lookup: "store_eq w w' \<Longrightarrow> lookup w' h k = lookup w h k"
  by (simp add: lookup_def store_eq_pointee)

lemma store_eq_live: "store_eq w w' \<Longrightarrow> live w' h = live w h"
  by (simp add: store_eq_def live_def)

lemma store_eq_handles_ok: "store_eq w w' \<Longrightarrow> handles_ok w' = handles_ok w"
  by (simp add: store_eq_def handles_ok_def cong: option.case_cong)

lemma store_eq_use_count: "store_eq w w' \<Longrightarrow> use_count w' a = use_count w a"
  by (simp add: store_eq_def use_count_def)

lemma store_eq_upd: "store_eq w w' \<Longrightarrow> store_eq (upd a f w) (upd a f w')"
  by (simp add: store_eq_def upd_def)

lemma store_eq_cloned: "store_eq w w' \<Longrightarrow> store_eq (cloned h w) (cloned h w')"
  by (simp add: store_eq_def cloned_def set_data_def data_def)

lemma store_eq_owned: "store_eq w w' \<Longrightarrow> store_eq (owned h w) (owned h w')"
  using store_eq_cloned[of w w' h]
  by (simp add: owned_def store_eq_use_count store_eq_data)

lemma store_eq_apply_op: "store_eq w w' \<Longrightarrow> store_eq (apply_op h f w) (apply_op h f w')"
  using store_eq_owned[of w w' h]
  by (simp add: apply_op_def store_eq_upd store_eq_data)

subsection \<open>The copy-on-write step\<close>

lemma count_list_update_fresh:
  "x \<notin> set xs \<Longrightarrow> i < length xs \<Longrightarrow> count_list (xs[i := x]) x = 1"
proof (induction xs arbitrary: i)
  case Nil
  then show ?case by simp
next
  case (Cons y ys)
  then show ?case by (cases i) auto
qed

lemma fresh_address: "handles_ok w \<Longrightarrow> Some (length (heap w)) \<notin> set (handles w)"
  by (force simp: handles_ok_def)

lemma handles_ok_cloned: "handles_ok w \<Longrightarrow> handles_ok (cloned h w)"
proof -
  assume ok: "handles_ok w"
  have "set ((handles w)[h := Some (length (heap w))])
      \<subseteq> insert (Some (length (heap w))) (set (handles w))"
    by (rule set_update_subset_insert)
  then show ?thesis
    using ok by (fastforce simp: handles_ok_def cloned_def set_data_def split: option.splits)
qed

lemma live_cloned: "live w h \<Longrightarrow> live (cloned h w) b = live w b"
  by (auto simp: live_def cloned_def set_data_def nth_list_update)

lemma data_cloned_self: "live w h \<Longrightarrow> data (cloned h w) h = length (heap w)"
  by (simp add: live_def cloned_def set_data_def data_def)

lemma data_cloned_other: "b \<noteq> h \<Longrightarrow> data (cloned h w) b = data w b"
  by (simp add: cloned_def set_data_def data_def)

lemma pointee_cloned_self:
  "live w h \<Longrightarrow> pointee (cloned h w) h = clone (v_default w) (pointee w h)"
  by (simp add: pointee_def data_cloned_self) (simp add: cloned_def set_data_def pointee_def)

lemma pointee_cloned_other:
  "handles_ok w \<Longrightarrow> live w b \<Longrightarrow> b \<noteq> h \<Longrightarrow> pointee (cloned h w) b = pointee w b"
  using data_less[of w b]
  by (simp add: pointee_def data_cloned_other) (simp add: cloned_def set_data_def nth_append)

lemma use_count_cloned:
  "handles_ok w \<Longrightarrow> live w h \<Longrightarrow> use_count (cloned h w) (data (cloned h w) h) = 1"
  using count_list_update_fresh[OF fresh_address, of w h]
  by (simp add: data_cloned_self) (simp add: use_count_def cloned_def set_data_def live_def)

lemma handles_ok_owned: "handles_ok w \<Longrightarrow> handles_ok (owned h w)"
  by (simp add: owned_def handles_ok_cloned)

lemma live_owned: "live w h \<Longrightarrow> live (owned h w) b = live w b"
  by (simp add: owned_def live_cloned)

lemma use_count_owned:
  "handles_ok w \<Longrightarrow> live w h \<Longrightarrow> \<not> 1 < use_count (owned h w) (data (owned h w) h)"
  by (simp add: owned_def use_count_cloned)

lemma pointee_owned_other:
  "handles_ok w \<Longrightarrow> live w b \<Longrightarrow> b \<noteq> h \<Longrightarrow> pointee (owned h w) b = pointee w b"
  by (simp add: owned_def pointee_cloned_other)

lemma pointee_owned_self:
  "live w h \<Longrightarrow> pointee (owned h w) h =
     (if 1 < use_count w (data w h) then clone (v_default w) (pointee w h) else pointee w h)"
  by (simp add: owned_def pointee_cloned_self)

subsection \<open>Writing through an owned pointer\<close>

lemma handles_upd: "handles (upd a f w) = handles w"
  by (simp add: upd_def)

lemma handles_ok_upd: "handles_ok (upd a f w) = handles_ok w"
  by (simp add: handles_ok_def upd_def cong: option.case_cong)

lemma live_upd: "live (upd a f w) b = live w b"
  by (simp add: live_def upd_def)

lemma data_upd: "data (upd a f w) b = data w b"
  by (simp add: data_def upd_def)

lemma use_count_upd: "use_count (upd a f w) x = use_count w x"
  by (simp add: use_count_def upd_def)

lemma pointee_upd_self:
  "handles_ok w \<Longrightarrow> live w h \<Longrightarrow> pointee (upd (data w h) f w) h = f (pointee w h)"
  using data_less[of w h] by (simp add: pointee_def data_upd) (simp add: upd_def)

lemma pointee_upd_other:
  "data w b \<noteq> a \<Longrightarrow> pointee (upd a f w) b = pointee w b"
  by (simp add: pointee_def data_upd) (simp add: upd_def)

lemma handles_ok_apply_op: "handles_ok w \<Longrightarrow> handles_ok (apply_op h f w)"
  by (simp add: apply_op_def handles_ok_upd handles_ok_owned)

lemma live_apply_op: "live w h \<Longrightarrow> live (apply_op h f w) b = live w b"
  by (simp add: apply_op_def live_upd live_owned)

lemma use_count_apply_op:
  "handles_ok w \<Longrightarrow> live w h \<Longrightarrow>
   \<not> 1 < use_count (apply_op h f w) (data (apply_op h f w) h)"
  using use_count_owned[of w h] by (simp add: apply_op_def use_count_upd data_upd)

lemma pointee_apply_op_self:
  assumes "handles_ok w" "live w h"
  shows "pointee (apply_op h f w) h =
     f (if 1 < use_count w (data w h) then clone (v_default w) (pointee w h) else pointee w h)"
proof -
  have "handles_ok (owned h w)" "live (owned h w) h"
    using assms by (simp_all add: handles_ok_owned live_owned)
  then have "pointee (apply_op h f w) h = f (pointee (owned h w) h)"
    unfolding apply_op_def by (rule pointee_upd_self)
  then show ?thesis using assms(2) by (simp add: pointee_owned_self)
qed

lemma pointee_apply_op_other:
  assumes "handles_ok w" "live w h" "live w b" "b \<noteq> h"
  shows "pointee (apply_op h f w) b = pointee w b"
proof -
  have "live (owned h w) h" "live (owned h w) b"
    using assms by (simp_all add: live_owned)
  moreover have "\<not> 1 < use_count (owned h w) (data (owned h w) h)"
    using assms(1,2) by (rule use_count_owned)
  ultimately have "data (owned h w) b \<noteq> data (owned h w) h"
    using assms(4) other_pointee[of "owned h w" h b] by blast
  then have "pointee (apply_op h f w) b = pointee (owned h w) b"
    unfolding apply_op_def by (rule pointee_upd_other)
  then show ?thesis using assms by (simp add: pointee_owned_other)
qed

lemma owned_exclusive: "\<not> 1 < use_count w (data w h) \<Longrightarrow> owned h w = w"
  by (simp add: owned_def)

lemma apply_op_exclusive:
  "\<not> 1 < use_count w (data w h) \<Longrightarrow> apply_op h f w = upd (data w h) f w"
  by (simp add: apply_op_def owned_def)

section \<open>What each operation does to the world\<close>

lemma store_eq_rolled_back: "store_eq w w' \<Longrightarrow> rolled_back h w w'"
  by (simp add: store_eq_def rolled_back_def)

lemma use_count_faults [simp]: "use_count (w\<lparr>faults := fs\<rparr>) a = use_count w a"
  by (simp add: use_count_def)

lemma set_flag_clone: "(clone dv s)\<lparr>non_const_refs_given := False\<rparr> = clone dv s"
  by (simp add: clone_def Let_def)

lemma contains_Inr:
  "contains h k w = Inr (c, w') \<Longrightarrow> c = (mappings (pointee w h) k \<noteq> None) \<and> store_eq w w'"
  unfolding contains_def may_throw_def
  by (auto simp: Let_def store_eq_def pointee_def data_def split: if_splits)

lemma contains_Inl: "contains h k w = Inl (e, w') \<Longrightarrow> e = propagated \<and> store_eq w w'"
  unfolding contains_def may_throw_def
  by (auto simp: Let_def store_eq_def split: if_splits)

lemma at_const_Inr:
  "at_const h k w = Inr (v, w') \<Longrightarrow> mappings (pointee w h) k \<noteq> None \<and>
     lookup w h k = Some v \<and> store_eq w w'"
  unfolding at_const_def contains_def mappings_at_def may_throw_def
  by (auto simp: Let_def store_eq_def pointee_def lookup_def data_def
      split: if_splits option.splits)

lemma at_const_Inl:
  "at_const h k w = Inl (e, w') \<Longrightarrow> store_eq w w' \<and>
     (e = lookup_error \<longrightarrow> mappings (pointee w h) k = None)"
  unfolding at_const_def contains_def mappings_at_def may_throw_def
  by (auto simp: Let_def store_eq_def pointee_def data_def split: if_splits option.splits)

lemma private_insert_Inr:
  assumes "handles_ok w" "live w h" "private_insert h k v w = Inr (r, w')"
  shows "store_eq (apply_op h (ins k v) w) w' \<and>
     r = (k, mappings (pointee (owned h w) h) k = None)"
  using assms data_less[OF assms(1,2)]
  unfolding private_insert_def copy_on_write_def copy_def may_throw_def apply_op_def owned_def
    cloned_def ins_def store_eq_def pointee_def
  by (auto simp: Let_def upd_def set_data_def data_def live_def nth_append
      split: if_splits sum.splits prod.splits option.splits)

lemma private_insert_Inl:
  assumes "handles_ok w" "live w h" "private_insert h k v w = Inl (e, w')"
  shows "e = propagated \<and> rolled_back h w w'"
  using assms data_less[OF assms(1,2)]
  unfolding private_insert_def copy_on_write_def copy_def may_throw_def rolled_back_def
    pointee_def
  by (auto simp: Let_def upd_def set_data_def data_def live_def nth_append erase_fresh
      list_update_same_conv split: if_splits sum.splits prod.splits option.splits)

lemma insert_iom_Inr:
  assumes "handles_ok w" "live w h" "insert_iom h k v w = Inr (b, w')"
  shows "store_eq (apply_op h (ins k v) w) w' \<and> b = (mappings (pointee (owned h w) h) k = None)"
  using assms private_insert_Inr[of w h k v]
  by (auto simp: insert_iom_def split: sum.splits prod.splits)

lemma insert_iom_Inl:
  assumes "handles_ok w" "live w h" "insert_iom h k v w = Inl (e, w')"
  shows "e = propagated \<and> rolled_back h w w'"
  using assms private_insert_Inl[of w h k v]
  by (auto simp: insert_iom_def split: sum.splits prod.splits)

lemma erase_Inr:
  assumes "handles_ok w" "live w h" "erase h k w = Inr (u, w')"
  shows "store_eq (apply_op h (del k) w) w' \<and> mappings (pointee w h) k \<noteq> None"
  using assms data_less[OF assms(1,2)]
  unfolding erase_def contains_def copy_on_write_def copy_def may_throw_def apply_op_def
    owned_def cloned_def del_def store_eq_def pointee_def
  by (auto simp: Let_def upd_def set_data_def data_def live_def nth_append
      list_update_same_conv split: if_splits sum.splits prod.splits option.splits)

lemma erase_Inl:
  assumes "handles_ok w" "live w h" "erase h k w = Inl (e, w')"
  shows "rolled_back h w w' \<and>
     (e = lookup_error \<longrightarrow> mappings (pointee w h) k = None \<and> store_eq w w')"
  using assms data_less[OF assms(1,2)]
  unfolding erase_def contains_def copy_on_write_def copy_def may_throw_def rolled_back_def
    store_eq_def pointee_def
  by (auto simp: Let_def upd_def set_data_def data_def live_def nth_append
      list_update_same_conv split: if_splits sum.splits prod.splits option.splits)

lemma clear_Inr:
  assumes "handles_ok w" "live w h" "clear h w = Inr (u, w')"
  shows "store_eq (apply_op h clr w) w'"
  using assms data_less[OF assms(1,2)]
  unfolding clear_def copy_on_write_def copy_def may_throw_def apply_op_def
    owned_def cloned_def clr_def store_eq_def
  by (auto simp: Let_def upd_def set_data_def data_def live_def nth_append
      split: if_splits sum.splits prod.splits)

lemma clear_Inl:
  assumes "clear h w = Inl (e, w')"
  shows "e = propagated \<and> store_eq w w'"
  using assms
  unfolding clear_def copy_on_write_def copy_def may_throw_def store_eq_def
  by (auto simp: Let_def split: if_splits sum.splits prod.splits)

lemma at_Inr:
  assumes "handles_ok w" "live w h" "at h k w = Inr (r, w')"
  shows "store_eq (apply_op h (set_flag True) w) w' \<and> r = (data w' h, k) \<and>
     mappings (pointee w h) k \<noteq> None \<and> mappings (pointee w' h) k \<noteq> None"
  using assms data_less[OF assms(1,2)]
  unfolding at_def contains_def mappings_at_def copy_on_write_def copy_def may_throw_def
    apply_op_def owned_def cloned_def set_flag_def store_eq_def pointee_def
  by (auto simp: Let_def upd_def set_data_def data_def live_def nth_append
      split: if_splits sum.splits prod.splits option.splits)

lemma at_Inl:
  assumes "handles_ok w" "live w h" "at h k w = Inl (e, w')"
  shows "(rolled_back h w w' \<or>
      \<not> 1 < use_count w (data w h) \<and> store_eq (upd (data w h) (set_flag False) w) w') \<and>
     (e = lookup_error \<longrightarrow> mappings (pointee w h) k = None \<and> store_eq w w')"
  using assms data_less[OF assms(1,2)]
  unfolding at_def contains_def mappings_at_def copy_on_write_def copy_def may_throw_def
    rolled_back_def set_flag_def store_eq_def pointee_def
  by (auto simp: Let_def upd_def set_data_def data_def live_def nth_append set_flag_clone
      list_update_same_conv split: if_splits sum.splits prod.splits option.splits)

section \<open>The invariant of a pointee\<close>

lemma struct_inv_flag [simp]: "struct_inv (s\<lparr>non_const_refs_given := b\<rparr>) = struct_inv s"
  by (simp add: struct_inv_def)

lemma struct_inv_new: "struct_inv new_structure"
  by (simp add: struct_inv_def new_structure_def)

lemma struct_inv_clr: "struct_inv (clr s)"
  by (simp add: struct_inv_def clr_def)

lemma struct_inv_set_flag: "struct_inv (set_flag b s) = struct_inv s"
  by (simp add: set_flag_def)

lemma inv_key_node:
  assumes "struct_inv s" "mappings s k = Some e"
  shows "(iter e, k) \<in> set (insertions s)"
proof -
  from assms have "k \<in> set (map snd (insertions s))" by (auto simp: struct_inv_def)
  then obtain n where n: "n \<in> set (insertions s)" "snd n = k" by auto
  with assms have "fst n = iter e" by (auto simp: struct_inv_def)
  moreover from n(1) have "(fst n, snd n) \<in> set (insertions s)" by simp
  ultimately show ?thesis using n(2) by simp
qed

lemma inv_node_key:
  assumes "struct_inv s" "n \<in> set (insertions s)"
  shows "\<exists>e. mappings s (snd n) = Some e \<and> iter e = fst n"
  using assms by (auto simp: struct_inv_def)

lemma erase_node_by_key:
  assumes "struct_inv s" "mappings s k = Some e"
  shows "erase_node (iter e) (insertions s) = filter (\<lambda>n. snd n \<noteq> k) (insertions s)"
proof -
  have node: "(iter e, k) \<in> set (insertions s)" using assms by (rule inv_key_node)
  have "fst n \<noteq> iter e \<longleftrightarrow> snd n \<noteq> k" if n: "n \<in> set (insertions s)" for n
  proof -
    obtain e' where e': "mappings s (snd n) = Some e'" "iter e' = fst n"
      using inv_node_key[OF assms(1) n] by blast
    have d: "distinct (map fst (insertions s))" using assms(1) by (simp add: struct_inv_def)
    show ?thesis
    proof
      assume "fst n \<noteq> iter e"
      then show "snd n \<noteq> k" using e' assms(2) by auto
    next
      assume "snd n \<noteq> k"
      show "fst n \<noteq> iter e"
      proof
        assume "fst n = iter e"
        moreover have "(fst n, snd n) \<in> set (insertions s)" using n by simp
        ultimately have "(iter e, snd n) \<in> set (insertions s)" by simp
        with node d have "snd n = k" by (metis eq_key_imp_eq_value)
        with \<open>snd n \<noteq> k\<close> show False by simp
      qed
    qed
  qed
  then show ?thesis unfolding erase_node_def by (auto intro: filter_cong)
qed

lemma insertions_ins:
  assumes "struct_inv s"
  shows "insertions (ins k v s) =
     filter (\<lambda>n. snd n \<noteq> k) (insertions s) @ [(fresh_node (insertions s), k)]"
proof (cases "mappings s k")
  case None
  then have "k \<notin> set (map snd (insertions s))" using assms by (auto simp: struct_inv_def)
  then have "filter (\<lambda>n. snd n \<noteq> k) (insertions s) = insertions s" by (auto simp: filter_id_conv)
  then show ?thesis using None by (simp add: ins_def Let_def)
next
  case (Some e)
  have "iter e \<noteq> fresh_node (insertions s)"
    using inv_key_node[OF assms Some] fresh_node_notin[of "insertions s"] by force
  then show ?thesis
    using Some erase_node_by_key[OF assms Some] by (simp add: ins_def Let_def erase_node_def)
qed

lemma mappings_ins:
  "mappings (ins k v s) =
     (mappings s)(k \<mapsto> (case mappings s k of
        None \<Rightarrow> \<lparr>iter = fresh_node (insertions s), val = v\<rparr>
      | Some e \<Rightarrow> e\<lparr>iter := fresh_node (insertions s)\<rparr>))"
  by (simp add: ins_def Let_def split: option.splits)

lemma flag_ins: "non_const_refs_given (ins k v s) = False"
  by (simp add: ins_def Let_def split: option.splits)

lemma struct_inv_ins:
  assumes "struct_inv s"
  shows "struct_inv (ins k v s)"
proof -
  let ?f = "fresh_node (insertions s)"
  have fresh: "?f \<notin> fst ` set (insertions s)" by (rule fresh_node_notin)
  have d1: "distinct (map fst (insertions s))" and d2: "distinct (map snd (insertions s))"
    and dm: "dom (mappings s) = set (map snd (insertions s))"
    and it: "\<forall>n\<in>set (insertions s). map_option iter (mappings s (snd n)) = Some (fst n)"
    using assms by (simp_all add: struct_inv_def)
  have "distinct (map fst (insertions (ins k v s)))"
    using d1 fresh by (auto simp: insertions_ins[OF assms] distinct_map_filter)
  moreover have "distinct (map snd (insertions (ins k v s)))"
    using d2 by (auto simp: insertions_ins[OF assms] distinct_map_filter)
  moreover have "dom (mappings (ins k v s)) = set (map snd (insertions (ins k v s)))"
    using dm by (auto simp: insertions_ins[OF assms] mappings_ins)
  moreover have "\<forall>n\<in>set (insertions (ins k v s)).
      map_option iter (mappings (ins k v s) (snd n)) = Some (fst n)"
    using it by (auto simp: insertions_ins[OF assms] mappings_ins split: option.splits)
  ultimately show ?thesis by (simp add: struct_inv_def)
qed

lemma keys_ins:
  "struct_inv s \<Longrightarrow>
   map snd (insertions (ins k v s)) = filter (\<lambda>x. x \<noteq> k) (map snd (insertions s)) @ [k]"
  by (simp add: insertions_ins filter_map comp_def)

lemma values_ins:
  "map_option val (mappings (ins k v s) k') =
     (if k' = k then (case mappings s k of None \<Rightarrow> Some v | Some e \<Rightarrow> Some (val e))
      else map_option val (mappings s k'))"
  by (simp add: mappings_ins split: option.splits)

lemma insertions_del:
  "struct_inv s \<Longrightarrow> insertions (del k s) = filter (\<lambda>n. snd n \<noteq> k) (insertions s)"
proof (cases "mappings s k")
  case None
  assume "struct_inv s"
  with None have "k \<notin> set (map snd (insertions s))" by (auto simp: struct_inv_def)
  then have "filter (\<lambda>n. snd n \<noteq> k) (insertions s) = insertions s" by (auto simp: filter_id_conv)
  then show ?thesis using None by (simp add: del_def)
next
  case (Some e)
  assume "struct_inv s"
  then show ?thesis using Some erase_node_by_key[of s k e] by (simp add: del_def)
qed

lemma mappings_del: "mappings (del k s) = (mappings s)(k := None)"
  by (auto simp: del_def split: option.splits)

lemma struct_inv_del:
  assumes "struct_inv s"
  shows "struct_inv (del k s)"
proof -
  have d1: "distinct (map fst (insertions s))" and d2: "distinct (map snd (insertions s))"
    and dm: "dom (mappings s) = set (map snd (insertions s))"
    and it: "\<forall>n\<in>set (insertions s). map_option iter (mappings s (snd n)) = Some (fst n)"
    using assms by (simp_all add: struct_inv_def)
  have "distinct (map fst (insertions (del k s)))"
    using d1 by (simp add: insertions_del[OF assms] distinct_map_filter)
  moreover have "distinct (map snd (insertions (del k s)))"
    using d2 by (simp add: insertions_del[OF assms] distinct_map_filter)
  moreover have "dom (mappings (del k s)) = set (map snd (insertions (del k s)))"
    using dm by (auto simp: insertions_del[OF assms] mappings_del)
  moreover have "\<forall>n\<in>set (insertions (del k s)).
      map_option iter (mappings (del k s) (snd n)) = Some (fst n)"
    using it by (auto simp: insertions_del[OF assms] mappings_del)
  ultimately show ?thesis by (simp add: struct_inv_def)
qed

lemma keys_del:
  "struct_inv s \<Longrightarrow> map snd (insertions (del k s)) = filter (\<lambda>x. x \<noteq> k) (map snd (insertions s))"
  by (simp add: insertions_del filter_map comp_def)

subsection \<open>The copy constructor of a pointee\<close>

lemma relink_notin: "k \<notin> snd ` set ns \<Longrightarrow> relink ns dv m k = m k"
  by (induction ns dv m rule: relink.induct) auto

lemma relink_in:
  "distinct (map snd ns) \<Longrightarrow> (i, k) \<in> set ns \<Longrightarrow>
   relink ns dv m k = Some (case m k of None \<Rightarrow> \<lparr>iter = i, val = dv\<rparr> | Some e \<Rightarrow> e\<lparr>iter := i\<rparr>)"
proof (induction ns dv m rule: relink.induct)
  case (1 dv m)
  then show ?case by simp
next
  case (2 j k' ns dv m)
  show ?case
  proof (cases "(i, k) = (j, k')")
    case True
    then have eq: "i = j" "k = k'" by simp_all
    then have "k \<notin> snd ` set ns" using "2.prems"(1) by auto
    then show ?thesis using eq by (simp add: relink_notin split: option.splits)
  next
    case False
    then have mem: "(i, k) \<in> set ns" using "2.prems"(2) by auto
    then have neq: "k \<noteq> k'" using "2.prems"(1) by force
    let ?m' = "m(k' \<mapsto> (case m k' of None \<Rightarrow> \<lparr>iter = j, val = dv\<rparr> | Some e \<Rightarrow> e\<lparr>iter := j\<rparr>))"
    have d: "distinct (map snd ns)" using "2.prems"(1) by simp
    have "relink ns dv ?m' k =
        Some (case ?m' k of None \<Rightarrow> \<lparr>iter = i, val = dv\<rparr> | Some e \<Rightarrow> e\<lparr>iter := i\<rparr>)"
      using d mem by (rule "2.IH")
    moreover have "?m' k = m k" using neq by simp
    ultimately show ?thesis by simp
  qed
qed

lemma insertions_clone:
  "insertions (clone dv s) = zip [0..<length (insertions s)] (map snd (insertions s))"
  by (simp add: clone_def Let_def)

lemma keys_clone: "map snd (insertions (clone dv s)) = map snd (insertions s)"
  by (simp add: insertions_clone)

lemma nodes_clone: "map fst (insertions (clone dv s)) = [0..<length (insertions s)]"
  by (simp add: insertions_clone)

lemma mappings_clone:
  "mappings (clone dv s) = relink (insertions (clone dv s)) dv (mappings s)"
  by (simp add: clone_def Let_def)

lemma flag_clone: "non_const_refs_given (clone dv s) = False"
  by (simp add: clone_def Let_def)

lemma values_clone:
  assumes "struct_inv s"
  shows "map_option val (mappings (clone dv s) k) = map_option val (mappings s k)"
proof (cases "k \<in> set (map snd (insertions s))")
  case False
  then have "k \<notin> snd ` set (insertions (clone dv s))"
    using keys_clone[of dv s] by (metis set_map)
  then show ?thesis by (simp add: mappings_clone relink_notin)
next
  case True
  then have "k \<in> set (map snd (insertions (clone dv s)))" by (simp add: keys_clone)
  then obtain i where i: "(i, k) \<in> set (insertions (clone dv s))" by auto
  have "distinct (map snd (insertions (clone dv s)))"
    using assms by (simp add: keys_clone struct_inv_def)
  then have "mappings (clone dv s) k =
      Some (case mappings s k of None \<Rightarrow> \<lparr>iter = i, val = dv\<rparr> | Some e \<Rightarrow> e\<lparr>iter := i\<rparr>)"
    unfolding mappings_clone using i by (rule relink_in)
  moreover have "mappings s k \<noteq> None" using True assms by (auto simp: struct_inv_def)
  ultimately show ?thesis by auto
qed

lemma struct_inv_clone:
  assumes "struct_inv s"
  shows "struct_inv (clone dv s)"
proof -
  let ?c = "clone dv s"
  have d2: "distinct (map snd (insertions ?c))"
    using assms by (simp add: keys_clone struct_inv_def)
  have "distinct (map fst (insertions ?c))" by (simp add: nodes_clone)
  moreover have "dom (mappings ?c) = set (map snd (insertions ?c))"
  proof -
    have "(mappings ?c k \<noteq> None) = (mappings s k \<noteq> None)" for k
      using values_clone[OF assms, of dv k] by (metis option.map_disc_iff)
    then have "dom (mappings ?c) = dom (mappings s)" by (auto simp: dom_def)
    then show ?thesis using assms by (simp add: keys_clone struct_inv_def)
  qed
  moreover have "\<forall>n\<in>set (insertions ?c). map_option iter (mappings ?c (snd n)) = Some (fst n)"
  proof
    fix n
    assume n: "n \<in> set (insertions ?c)"
    then have "(fst n, snd n) \<in> set (insertions ?c)" by simp
    with d2 have "mappings ?c (snd n) =
        Some (case mappings s (snd n) of None \<Rightarrow> \<lparr>iter = fst n, val = dv\<rparr>
              | Some e \<Rightarrow> e\<lparr>iter := fst n\<rparr>)"
      unfolding mappings_clone by (rule relink_in)
    then show "map_option iter (mappings ?c (snd n)) = Some (fst n)"
      by (auto split: option.splits)
  qed
  ultimately show ?thesis using d2 by (simp add: struct_inv_def)
qed

section \<open>The invariant of a world\<close>

lemma store_eq_world_inv: "store_eq w w' \<Longrightarrow> world_inv w' = world_inv w"
  by (simp add: world_inv_def store_eq_handles_ok) (simp add: store_eq_def)

lemma world_inv_pointee: "world_inv w \<Longrightarrow> live w h \<Longrightarrow> struct_inv (pointee w h)"
  using data_less[of w h] by (simp add: world_inv_def pointee_def)

lemma world_inv_upd:
  assumes "world_inv w" "\<And>s. struct_inv s \<Longrightarrow> struct_inv (f s)"
  shows "world_inv (upd a f w)"
proof -
  have "set ((heap w)[a := f (heap w ! a)]) \<subseteq> insert (f (heap w ! a)) (set (heap w))"
    by (rule set_update_subset_insert)
  moreover have "struct_inv (f (heap w ! a))" if "a < length (heap w)"
    using that assms by (simp add: world_inv_def)
  moreover have "(heap w)[a := f (heap w ! a)] = heap w" if "\<not> a < length (heap w)"
    using that by (simp add: list_update_beyond)
  ultimately have "\<forall>s\<in>set (heap (upd a f w)). struct_inv s"
    using assms(1) by (cases "a < length (heap w)") (auto simp: world_inv_def upd_def)
  then show ?thesis using assms(1) by (simp add: world_inv_def handles_ok_upd)
qed

lemma world_inv_cloned:
  assumes "world_inv w" "live w h"
  shows "world_inv (cloned h w)"
proof -
  have "struct_inv (clone (v_default w) (heap w ! data w h))"
    using world_inv_pointee[OF assms] by (simp add: pointee_def struct_inv_clone)
  then have "\<forall>s\<in>set (heap (cloned h w)). struct_inv s"
    using assms(1) by (auto simp: world_inv_def cloned_def set_data_def)
  then show ?thesis using assms(1) by (simp add: world_inv_def handles_ok_cloned)
qed

lemma world_inv_owned: "world_inv w \<Longrightarrow> live w h \<Longrightarrow> world_inv (owned h w)"
  by (simp add: owned_def world_inv_cloned)

lemma world_inv_apply_op:
  assumes "world_inv w" "live w h" "\<And>s. struct_inv s \<Longrightarrow> struct_inv (f s)"
  shows "world_inv (apply_op h f w)"
  unfolding apply_op_def using world_inv_owned[OF assms(1,2)] assms(3) by (rule world_inv_upd)

lemma world_inv_rolled_back:
  assumes "world_inv w" "live w h" "rolled_back h w w'"
  shows "world_inv w'"
proof -
  have "struct_inv (clone (v_default w) (pointee w h))"
    using world_inv_pointee[OF assms(1,2)] by (rule struct_inv_clone)
  then have "\<forall>s\<in>set (heap w'). struct_inv s"
    using assms(1,3) by (auto simp: world_inv_def rolled_back_def)
  moreover have "handles_ok w'"
    using assms(1,3) by (fastforce simp: world_inv_def rolled_back_def handles_ok_def
        split: option.splits)
  ultimately show ?thesis by (simp add: world_inv_def)
qed

lemma rolled_back_live: "rolled_back h w w' \<Longrightarrow> live w' b = live w b"
  by (simp add: rolled_back_def live_def)

lemma rolled_back_pointee:
  assumes "handles_ok w" "live w b" "rolled_back h w w'"
  shows "pointee w' b = pointee w b"
  using assms data_less[OF assms(1,2)]
  by (auto simp: rolled_back_def pointee_def data_def nth_append)

subsection \<open>The pointee an operation writes to\<close>

text \<open>After the copy-on-write step the pointee has the keys, in order, and the values it
  had before, and it satisfies the invariant.\<close>

lemma owned_view:
  assumes "world_inv w" "live w h"
  shows "struct_inv (pointee (owned h w) h)"
    and "map snd (insertions (pointee (owned h w) h)) = order w h"
    and "map_option val (mappings (pointee (owned h w) h) k) = lookup w h k"
    and "(mappings (pointee (owned h w) h) k = None) = (lookup w h k = None)"
proof -
  have inv: "struct_inv (pointee w h)" using assms by (rule world_inv_pointee)
  show "struct_inv (pointee (owned h w) h)"
    using inv assms(2) by (simp add: pointee_owned_self struct_inv_clone)
  show "map snd (insertions (pointee (owned h w) h)) = order w h"
    using assms(2) by (simp add: pointee_owned_self keys_clone order_def)
  show v: "map_option val (mappings (pointee (owned h w) h) k) = lookup w h k"
    using inv assms(2) by (simp add: pointee_owned_self values_clone lookup_def)
  show "(mappings (pointee (owned h w) h) k = None) = (lookup w h k = None)"
    using v by (metis option.map_disc_iff)
qed

lemma pointee_apply_op: 
  "handles_ok w \<Longrightarrow> live w h \<Longrightarrow> pointee (apply_op h f w) h = f (pointee (owned h w) h)"
  by (simp add: pointee_apply_op_self pointee_owned_self)

lemma data_apply_op_other: "b \<noteq> h \<Longrightarrow> data (apply_op h f w) b = data w b"
  by (simp add: apply_op_def data_upd owned_def data_cloned_other)

lemma data_apply_op_exclusive:
  "\<not> 1 < use_count w (data w h) \<Longrightarrow> data (apply_op h f w) b = data w b"
  by (simp add: apply_op_exclusive data_upd)

section \<open>Calls that do not throw\<close>

lemma may_throw_no_faults: "faults w = [] \<Longrightarrow> may_throw w = Inr ((), w)"
  by (cases w) (simp add: may_throw_def)

lemma may_throw_Inr: "may_throw w = Inr (u, w') \<Longrightarrow> store_eq w w'"
  by (auto simp: may_throw_def Let_def store_eq_def split: if_splits)

lemma may_throw_Inl: "may_throw w = Inl (e, w') \<Longrightarrow> e = propagated \<and> store_eq w w'"
  by (auto simp: may_throw_def Let_def store_eq_def split: if_splits)

lemma faults_upd [simp]: "faults (upd a f w) = faults w"
  by (simp add: upd_def)

lemma faults_set_data [simp]: "faults (set_data h a w) = faults w"
  by (simp add: set_data_def)

lemma copy_on_write_no_faults:
  "faults w = [] \<Longrightarrow> \<exists>w'. copy_on_write h w = Inr (data w h, w') \<and> faults w' = []"
  by (simp add: copy_on_write_def copy_def may_throw_no_faults Let_def)

lemma private_insert_no_faults:
  assumes "faults w = []"
  shows "\<exists>r w'. private_insert h k v w = Inr (r, w') \<and> faults w' = []"
proof -
  obtain w1 where w1: "copy_on_write h w = Inr (data w h, w1)" "faults w1 = []"
    using copy_on_write_no_faults[OF assms] by blast
  then show ?thesis
    by (auto simp: private_insert_def may_throw_no_faults Let_def split: option.splits)
qed

lemma insert_iom_no_faults:
  assumes "faults w = []"
  shows "\<exists>b w'. insert_iom h k v w = Inr (b, w') \<and> faults w' = []"
  using private_insert_no_faults[OF assms, of h k v] by (auto simp: insert_iom_def)

lemma at_const_no_faults:
  "faults w = [] \<Longrightarrow> lookup w h k = Some v \<Longrightarrow> at_const h k w = Inr (v, w)"
  by (auto simp: at_const_def contains_def mappings_at_def may_throw_no_faults lookup_def
      pointee_def)

section \<open>Insertion\<close>

lemma insert_iom_view:
  assumes "world_inv w" "live w h" "insert_iom h k v w = Inr (b, w')"
  shows "b = (lookup w h k = None)"
    and "order w' h = filter (\<lambda>x. x \<noteq> k) (order w h) @ [k]"
    and "lookup w' h k = (case lookup w h k of None \<Rightarrow> Some v | Some x \<Rightarrow> Some x)"
    and "k' \<noteq> k \<Longrightarrow> lookup w' h k' = lookup w h k'"
    and "non_const_refs_given (pointee w' h) = False"
proof -
  have ok: "handles_ok w" using assms(1) by (simp add: world_inv_def)
  have eff: "store_eq (apply_op h (ins k v) w) w'"
    and b: "b = (mappings (pointee (owned h w) h) k = None)"
    using insert_iom_Inr[OF ok assms(2,3)] by simp_all
  have p: "pointee w' h = ins k v (pointee (owned h w) h)"
    using store_eq_pointee[OF eff] pointee_apply_op[OF ok assms(2)] by simp
  note view = owned_view[OF assms(1,2)]
  show "b = (lookup w h k = None)" using b view(4) by simp
  show "order w' h = filter (\<lambda>x. x \<noteq> k) (order w h) @ [k]"
    using keys_ins[OF view(1)] view(2) by (simp add: order_def p)
  have "lookup w' h k = (case mappings (pointee (owned h w) h) k of
      None \<Rightarrow> Some v | Some e \<Rightarrow> Some (val e))"
    by (simp add: lookup_def p values_ins)
  then show "lookup w' h k = (case lookup w h k of None \<Rightarrow> Some v | Some x \<Rightarrow> Some x)"
    using view(3)[of k] by (auto split: option.splits)
  show "lookup w' h k' = lookup w h k'" if "k' \<noteq> k"
    using that view(3)[of k'] by (simp add: lookup_def p values_ins)
  show "non_const_refs_given (pointee w' h) = False" by (simp add: p flag_ins)
qed

lemma filter_absent: "k \<notin> set xs \<Longrightarrow> filter (\<lambda>x. x \<noteq> k) xs = xs"
  by (induction xs) auto

lemma order_lookup:
  "world_inv w \<Longrightarrow> live w h \<Longrightarrow> (k \<in> set (order w h)) = (lookup w h k \<noteq> None)"
  using world_inv_pointee[of w h]
  by (auto simp: struct_inv_def order_def lookup_def dom_def)

lemma shared_ab_inv: "world_inv shared_ab"
  by (auto simp: shared_ab_def world_inv_def handles_ok_def struct_inv_def)

lemma shared_ab_live: "live shared_ab 0" "live shared_ab 1"
  by (simp_all add: shared_ab_def live_def)

lemma shared_ab_view:
  "order shared_ab 0 = [''a'', ''b'']" "lookup shared_ab 0 ''a'' = Some 1"
  "lookup shared_ab 0 ''b'' = Some 2" "lookup shared_ab 0 ''c'' = None"
  "order shared_ab 1 = [''a'', ''b'']" "lookup shared_ab 1 ''a'' = Some 1"
  "lookup shared_ab 1 ''b'' = Some 2" "lookup shared_ab 1 ''c'' = None"
  "faults shared_ab = []"
  by (simp_all add: shared_ab_def order_def lookup_def pointee_def data_def)

text \<open>
  C3. For a container satisfying the invariant: \<open>insert(k, v')\<close> returns when nothing
  throws, and whenever it returns: if \<open>k\<close> was present with value \<open>v\<close> it returns false,
  \<open>k\<close> still has the value \<open>v\<close>, and \<open>k\<close> is the last key of the iteration order, the other
  keys keeping their order; if \<open>k\<close> was absent it returns true, \<open>k\<close> has the value \<open>v'\<close> and
  is appended to the iteration order; no other key changes its value.
\<close>

theorem insert_existing_or_new:
  assumes "world_inv w" "live w h"
  shows "(faults w = [] \<longrightarrow> (\<exists>b w'. insert_iom h k v' w = Inr (b, w'))) \<and>
    (\<forall>b w'. insert_iom h k v' w = Inr (b, w') \<longrightarrow>
       (\<forall>v. lookup w h k = Some v \<longrightarrow>
          b = False \<and> lookup w' h k = Some v \<and>
          order w' h = filter (\<lambda>x. x \<noteq> k) (order w h) @ [k]) \<and>
       (lookup w h k = None \<longrightarrow>
          b = True \<and> lookup w' h k = Some v' \<and> order w' h = order w h @ [k]) \<and>
       (\<forall>k'. k' \<noteq> k \<longrightarrow> lookup w' h k' = lookup w h k'))"
proof (intro conjI allI impI)
  assume "faults w = []"
  then show "\<exists>b w'. insert_iom h k v' w = Inr (b, w')"
    using insert_iom_no_faults[of w h k v'] by blast
next
  fix b w' v
  assume r: "insert_iom h k v' w = Inr (b, w')" and p: "lookup w h k = Some v"
  note view = insert_iom_view[OF assms r]
  show "b = False" using view(1) p by simp
  show "lookup w' h k = Some v" using view(3) p by simp
  show "order w' h = filter (\<lambda>x. x \<noteq> k) (order w h) @ [k]" by (rule view(2))
next
  fix b w'
  assume r: "insert_iom h k v' w = Inr (b, w')" and p: "lookup w h k = None"
  note view = insert_iom_view[OF assms r]
  have "k \<notin> set (order w h)" using order_lookup[OF assms, of k] p by simp
  then have f: "filter (\<lambda>x. x \<noteq> k) (order w h) = order w h" by (rule filter_absent)
  show "b = True" using view(1) p by simp
  show "lookup w' h k = Some v'" using view(3) p by simp
  show "order w' h = order w h @ [k]" using view(2) f by simp
next
  fix b w' k'
  assume r: "insert_iom h k v' w = Inr (b, w')" and "k' \<noteq> k"
  then show "lookup w' h k' = lookup w h k'" using insert_iom_view(4)[OF assms r] by simp
qed

theorem insert_existing_or_new_witness:
  "world_inv shared_ab \<and> live shared_ab 0 \<and> lookup shared_ab 0 ''a'' = Some 1 \<and>
   lookup shared_ab 0 ''c'' = None \<and>
   (\<exists>w'. insert_iom 0 ''a'' 99 shared_ab = Inr (False, w') \<and> lookup w' 0 ''a'' = Some 1 \<and>
      order w' 0 = [''b'', ''a''] \<and> lookup w' 0 ''b'' = Some 2) \<and>
   (\<exists>w'. insert_iom 0 ''c'' 3 shared_ab = Inr (True, w') \<and> lookup w' 0 ''c'' = Some 3 \<and>
      order w' 0 = [''a'', ''b'', ''c''])"
proof -
  note a = insert_existing_or_new[OF shared_ab_inv shared_ab_live(1), of "''a''" 99]
  note c = insert_existing_or_new[OF shared_ab_inv shared_ab_live(1), of "''c''" 3]
  obtain b w' where r: "insert_iom 0 ''a'' 99 shared_ab = Inr (b, w')"
    using a shared_ab_view(9) by blast
  have "b = False \<and> lookup w' 0 ''a'' = Some 1 \<and> order w' 0 = [''b'', ''a''] \<and>
      lookup w' 0 ''b'' = Some 2"
    using a r shared_ab_view by force
  then have 1: "\<exists>w'. insert_iom 0 ''a'' 99 shared_ab = Inr (False, w') \<and>
      lookup w' 0 ''a'' = Some 1 \<and> order w' 0 = [''b'', ''a''] \<and> lookup w' 0 ''b'' = Some 2"
    using r by blast
  obtain b2 w2 where r2: "insert_iom 0 ''c'' 3 shared_ab = Inr (b2, w2)"
    using c shared_ab_view(9) by blast
  have "b2 = True \<and> lookup w2 0 ''c'' = Some 3 \<and> order w2 0 = [''a'', ''b'', ''c'']"
    using c r2 shared_ab_view by force
  then have 2: "\<exists>w'. insert_iom 0 ''c'' 3 shared_ab = Inr (True, w') \<and>
      lookup w' 0 ''c'' = Some 3 \<and> order w' 0 = [''a'', ''b'', ''c'']"
    using r2 by blast
  show ?thesis using 1 2 shared_ab_inv shared_ab_live(1) shared_ab_view by simp
qed

section \<open>Queries\<close>

lemma mappings_at_outcome: "store_eq w (outcome (mappings_at a k w))"
  by (auto simp: mappings_at_def may_throw_def outcome_def store_eq_def Let_def
      split: option.splits)

lemma contains_outcome: "store_eq w (outcome (contains h k w))"
  by (auto simp: contains_def may_throw_def outcome_def store_eq_def Let_def)

lemma at_const_outcome: "store_eq w (outcome (at_const h k w))"
proof (cases "at_const h k w")
  case (Inl a)
  then obtain e w' where r: "at_const h k w = Inl (e, w')" by (cases a) auto
  then show ?thesis using at_const_Inl[OF r] by (simp add: outcome_def)
next
  case (Inr b)
  then obtain v w' where r: "at_const h k w = Inr (v, w')" by (cases b) auto
  then show ?thesis using at_const_Inr[OF r] by (simp add: outcome_def)
qed

lemma dereference_outcome: "store_eq w (outcome (dereference it w))"
proof (cases "it_iter it")
  case None
  then show ?thesis by (simp add: dereference_def outcome_def store_eq_refl)
next
  case (Some i)
  show ?thesis
  proof (cases "map_of (insertions (heap w ! it_list it)) i")
    case None
    then show ?thesis using Some by (simp add: dereference_def outcome_def store_eq_refl)
  next
    case (Some k)
    have "outcome (dereference it w) = outcome (at_const (it_ptr it) k w)"
      using Some \<open>it_iter it = Some i\<close>
      by (simp add: dereference_def outcome_def split: sum.splits prod.splits)
    then show ?thesis by (simp add: at_const_outcome)
  qed
qed

text \<open>
  C9. \<open>size()\<close>, \<open>empty()\<close>, \<open>begin()\<close>, \<open>end()\<close> and advancing an iterator return the world
  they were called in; \<open>contains(k)\<close>, the read-only \<open>at(k)\<close> and dereferencing an iterator
  leave, whether they return or throw, the store (every pointee, with its index, its list
  and its flag, and no pointee more) and the \<open>data\<close> pointer of every container as they
  were: nothing is cloned, no content changes, and no flag is set.
\<close>

theorem queries_change_nothing:
  "snd (size_iom h w) = w \<and> snd (empty_iom h w) = w \<and>
   snd (begin_iom h w) = w \<and> snd (end_iom h w) = w \<and> snd (increment it w) = w \<and>
   store_eq w (outcome (contains h k w)) \<and>
   store_eq w (outcome (at_const h k w)) \<and>
   store_eq w (outcome (dereference it w))"
proof -
  have "snd (size_iom h w) = w" by (simp add: size_iom_def)
  moreover have "snd (empty_iom h w) = w" by (simp add: empty_iom_def size_iom_def)
  moreover have "snd (begin_iom h w) = w" by (simp add: begin_iom_def)
  moreover have "snd (end_iom h w) = w" by (simp add: end_iom_def)
  moreover have "snd (increment it w) = w" by (simp add: increment_def split: option.splits)
  ultimately show ?thesis
    using contains_outcome[of w h k] at_const_outcome[of w h k] dereference_outcome[of w it]
    by simp
qed

section \<open>Lookup errors\<close>

lemma contains_no_throw:
  "\<not> (faults w \<noteq> [] \<and> hd (faults w)) \<Longrightarrow>
   \<exists>w'. contains h k w = Inr (lookup w h k \<noteq> None, w') \<and> store_eq w w'"
  by (auto simp: contains_def may_throw_def Let_def lookup_def pointee_def data_def store_eq_def)

lemma contains_throw:
  "faults w \<noteq> [] \<and> hd (faults w) \<Longrightarrow> \<exists>w'. contains h k w = Inl (propagated, w')"
  by (auto simp: contains_def may_throw_def Let_def)

lemma copy_on_write_error:
  "copy_on_write h w = Inl (e, w') \<Longrightarrow> e = propagated"
  by (auto simp: copy_on_write_def copy_def may_throw_def Let_def split: if_splits)

lemma mappings_at_error: "mappings_at a k w = Inl (e, w') \<Longrightarrow> e = propagated"
  by (auto simp: mappings_at_def may_throw_def Let_def split: if_splits option.splits)

lemma erase_lookup_error:
  "(\<exists>w'. erase h k w = Inl (lookup_error, w')) =
     (lookup w h k = None \<and> \<not> (faults w \<noteq> [] \<and> hd (faults w)))"
proof (cases "faults w \<noteq> [] \<and> hd (faults w)")
  case True
  then show ?thesis using contains_throw[of w h k] by (auto simp: erase_def)
next
  case False
  then obtain w1 where c: "contains h k w = Inr (lookup w h k \<noteq> None, w1)"
    using contains_no_throw[of w h k] by blast
  show ?thesis
  proof (cases "lookup w h k")
    case None
    then show ?thesis using c False by (simp add: erase_def)
  next
    case (Some v)
    then show ?thesis
      using c False
      by (auto simp: erase_def may_throw_def Let_def
          split: sum.splits prod.splits option.splits if_splits dest: copy_on_write_error)
  qed
qed

lemma at_lookup_error:
  "(\<exists>w'. at h k w = Inl (lookup_error, w')) =
     (lookup w h k = None \<and> \<not> (faults w \<noteq> [] \<and> hd (faults w)))"
proof (cases "faults w \<noteq> [] \<and> hd (faults w)")
  case True
  then show ?thesis using contains_throw[of w h k] by (auto simp: at_def)
next
  case False
  then obtain w1 where c: "contains h k w = Inr (lookup w h k \<noteq> None, w1)"
    using contains_no_throw[of w h k] by blast
  show ?thesis
  proof (cases "lookup w h k")
    case None
    then show ?thesis using c False by (simp add: at_def)
  next
    case (Some v)
    then show ?thesis
      using c False
      by (auto simp: at_def Let_def
          split: sum.splits prod.splits dest: copy_on_write_error mappings_at_error)
  qed
qed

lemma at_const_lookup_error:
  "(\<exists>w'. at_const h k w = Inl (lookup_error, w')) =
     (lookup w h k = None \<and> \<not> (faults w \<noteq> [] \<and> hd (faults w)))"
proof (cases "faults w \<noteq> [] \<and> hd (faults w)")
  case True
  then show ?thesis using contains_throw[of w h k] by (auto simp: at_const_def)
next
  case False
  then obtain w1 where c: "contains h k w = Inr (lookup w h k \<noteq> None, w1)"
    using contains_no_throw[of w h k] by blast
  show ?thesis
  proof (cases "lookup w h k")
    case None
    then show ?thesis using c False by (simp add: at_const_def)
  next
    case (Some v)
    then show ?thesis
      using c False by (auto simp: at_const_def dest: mappings_at_error)
  qed
qed

lemma lookup_error_unchanged:
  "erase h k w = Inl (lookup_error, w') \<Longrightarrow> store_eq w w'"
  "at h k w = Inl (lookup_error, w') \<Longrightarrow> store_eq w w'"
  "at_const h k w = Inl (lookup_error, w') \<Longrightarrow> store_eq w w'"
proof -
  show "erase h k w = Inl (lookup_error, w') \<Longrightarrow> store_eq w w'"
    by (auto simp: erase_def split: sum.splits prod.splits if_splits option.splits
        dest: contains_Inr contains_Inl copy_on_write_error may_throw_Inl)
  show "at h k w = Inl (lookup_error, w') \<Longrightarrow> store_eq w w'"
    by (auto simp: at_def Let_def split: sum.splits prod.splits if_splits
        dest: contains_Inr contains_Inl copy_on_write_error mappings_at_error)
  show "at_const h k w = Inl (lookup_error, w') \<Longrightarrow> store_eq w w'"
    using at_const_Inl[of h k w lookup_error w'] by simp
qed

text \<open>
  C5. When the hash call of the lookup itself does not throw, \<open>erase(k)\<close>, the mutable
  \<open>at(k)\<close> and the read-only \<open>at(k)\<close> raise \<open>lookup_error\<close> if and only if \<open>k\<close> is absent;
  and whenever one of them raises \<open>lookup_error\<close>, every pointee and every container is as
  it was before the call.
\<close>

theorem lookup_error_iff_absent:
  "(\<not> (faults w \<noteq> [] \<and> hd (faults w)) \<longrightarrow>
      ((\<exists>w'. erase h k w = Inl (lookup_error, w')) = (lookup w h k = None)) \<and>
      ((\<exists>w'. at h k w = Inl (lookup_error, w')) = (lookup w h k = None)) \<and>
      ((\<exists>w'. at_const h k w = Inl (lookup_error, w')) = (lookup w h k = None))) \<and>
   (\<forall>w'. erase h k w = Inl (lookup_error, w') \<longrightarrow> store_eq w w') \<and>
   (\<forall>w'. at h k w = Inl (lookup_error, w') \<longrightarrow> store_eq w w') \<and>
   (\<forall>w'. at_const h k w = Inl (lookup_error, w') \<longrightarrow> store_eq w w')"
  using erase_lookup_error[of h k w] at_lookup_error[of h k w] at_const_lookup_error[of h k w]
    lookup_error_unchanged[of h k w]
  by blast

theorem lookup_error_iff_absent_witness:
  "faults shared_ab = [] \<and> lookup shared_ab 0 ''c'' = None \<and> lookup shared_ab 0 ''a'' = Some 1 \<and>
   (\<exists>w'. erase 0 ''c'' shared_ab = Inl (lookup_error, w') \<and> store_eq shared_ab w') \<and>
   (\<exists>w'. at 0 ''c'' shared_ab = Inl (lookup_error, w') \<and> store_eq shared_ab w') \<and>
   (\<exists>w'. at_const 0 ''c'' shared_ab = Inl (lookup_error, w') \<and> store_eq shared_ab w') \<and>
   \<not> (\<exists>w'. erase 0 ''a'' shared_ab = Inl (lookup_error, w')) \<and>
   \<not> (\<exists>w'. at 0 ''a'' shared_ab = Inl (lookup_error, w')) \<and>
   \<not> (\<exists>w'. at_const 0 ''a'' shared_ab = Inl (lookup_error, w'))"
  using lookup_error_iff_absent[of shared_ab 0 "''c''"]
    lookup_error_iff_absent[of shared_ab 0 "''a''"] shared_ab_view
  by auto

section \<open>Sequences of insertions\<close>

lemma insert_iom_inv:
  assumes "world_inv w" "live w h" "insert_iom h k v w = Inr (b, w')"
  shows "world_inv w'" and "live w' b' = live w b'"
proof -
  have ok: "handles_ok w" using assms(1) by (simp add: world_inv_def)
  have eff: "store_eq (apply_op h (ins k v) w) w'"
    using insert_iom_Inr[OF ok assms(2,3)] by simp
  have "world_inv (apply_op h (ins k v) w)"
    using assms(1,2) struct_inv_ins by (rule world_inv_apply_op)
  then show "world_inv w'" using store_eq_world_inv[OF eff] by simp
  show "live w' b' = live w b'"
    using store_eq_live[OF eff] live_apply_op[OF assms(2)] by simp
qed

lemma remdups_move_last:
  "remdups (filter (\<lambda>x. x \<noteq> k) xs @ k # ks) = remdups (xs @ k # ks)"
  by (induction xs) auto

lemma insert_all_order:
  assumes "world_inv w" "live w h" "insert_all h kvs w = Inr (bs, w')"
  shows "order w' h = remdups (order w h @ map fst kvs) \<and> world_inv w' \<and> live w' h"
  using assms
proof (induction kvs arbitrary: w bs)
  case Nil
  have "distinct (order w h)"
    using world_inv_pointee[OF Nil.prems(1,2)] by (simp add: struct_inv_def order_def)
  then show ?case using Nil.prems by (simp add: distinct_remdups_id)
next
  case (Cons kv kvs)
  obtain k v where kv: "kv = (k, v)" by (cases kv)
  from Cons.prems(3) obtain b w1 bs' where
    step: "insert_iom h k v w = Inr (b, w1)" and rest: "insert_all h kvs w1 = Inr (bs', w')"
    by (auto simp: kv split: sum.splits prod.splits)
  have inv1: "world_inv w1" and live1: "live w1 h"
    using insert_iom_inv[OF Cons.prems(1,2) step] Cons.prems(2) by simp_all
  have o1: "order w1 h = filter (\<lambda>x. x \<noteq> k) (order w h) @ [k]"
    by (rule insert_iom_view(2)[OF Cons.prems(1,2) step])
  have "order w' h = remdups (order w1 h @ map fst kvs) \<and> world_inv w' \<and> live w' h"
    using inv1 live1 rest by (rule Cons.IH)
  then show ?case using o1 remdups_move_last[of k "order w h" "map fst kvs"] by (simp add: kv)
qed

lemma insert_all_no_faults:
  "faults w = [] \<Longrightarrow> \<exists>bs w'. insert_all h kvs w = Inr (bs, w') \<and> faults w' = []"
proof (induction kvs arbitrary: w)
  case Nil
  then show ?case by simp
next
  case (Cons kv kvs)
  obtain k v where kv: "kv = (k, v)" by (cases kv)
  obtain b w1 where step: "insert_iom h k v w = Inr (b, w1)" "faults w1 = []"
    using insert_iom_no_faults[OF Cons.prems, of h k v] by blast
  obtain bs w2 where "insert_all h kvs w1 = Inr (bs, w2)" "faults w2 = []"
    using Cons.IH[OF step(2)] by blast
  then show ?case using step(1) by (simp add: kv)
qed

subsection \<open>Iterating\<close>

lemma walk_nodes:
  assumes "faults w = []" "distinct (map fst ns)" "insertions (pointee w h) = ns"
    "\<forall>x\<in>set ns. lookup w h (snd x) \<noteq> None"
  shows "ns = pre @ post \<Longrightarrow> length post < n \<Longrightarrow>
    walk n \<lparr>it_iter = (case post of [] \<Rightarrow> None | x # _ \<Rightarrow> Some (fst x)),
        it_list = data w h, it_ptr = h\<rparr> w
      = map (\<lambda>x. (snd x, the (lookup w h (snd x)))) post"
proof (induction post arbitrary: pre n)
  case Nil
  then obtain m where "n = Suc m" by (cases n) auto
  then show ?case by (simp add: end_iom_def)
next
  case (Cons x post)
  from Cons.prems(2) obtain m where n: "n = Suc m" and m: "length post < m" by (cases n) auto
  let ?it = "\<lparr>it_iter = Some (fst x), it_list = data w h, it_ptr = h\<rparr>"
  have mem: "(fst x, snd x) \<in> set ns" using Cons.prems(1) by simp
  have "map_of ns (fst x) = Some (snd x)" using assms(2) mem by (rule map_of_is_SomeI)
  moreover obtain v where v: "lookup w h (snd x) = Some v"
    using assms(4) mem by force
  moreover have "at_const h (snd x) w = Inr (v, w)" using assms(1) v by (rule at_const_no_faults)
  ultimately have d: "dereference ?it w = Inr (Some (snd x, v), w)"
    using assms(3) by (simp add: dereference_def pointee_def)
  have "\<forall>y\<in>set pre. fst y \<noteq> fst x"
    using assms(2) Cons.prems(1) by (auto simp: rev_image_eqI)
  then have "dropWhile (\<lambda>y. fst y \<noteq> fst x) ns = x # post"
    using Cons.prems(1) by (simp add: dropWhile_append2)
  then have i: "fst (increment ?it w) =
      \<lparr>it_iter = (case post of [] \<Rightarrow> None | y # _ \<Rightarrow> Some (fst y)),
        it_list = data w h, it_ptr = h\<rparr>"
    using assms(3) by (simp add: increment_def pointee_def split: list.splits)
  have "ns = (pre @ [x]) @ post" using Cons.prems(1) by simp
  then have "walk m \<lparr>it_iter = (case post of [] \<Rightarrow> None | y # _ \<Rightarrow> Some (fst y)),
        it_list = data w h, it_ptr = h\<rparr> w
      = map (\<lambda>x. (snd x, the (lookup w h (snd x)))) post"
    using m by (rule Cons.IH)
  then show ?case using d i v by (simp add: n end_iom_def)
qed

lemma traverse_order:
  assumes "world_inv w" "live w h" "faults w = []"
  shows "traverse h w = map (\<lambda>k. (k, the (lookup w h k))) (order w h)"
proof -
  let ?ns = "insertions (pointee w h)"
  have inv: "struct_inv (pointee w h)" using assms(1,2) by (rule world_inv_pointee)
  then have d: "distinct (map fst ?ns)" by (simp add: struct_inv_def)
  have p: "\<forall>x\<in>set ?ns. lookup w h (snd x) \<noteq> None"
    using order_lookup[OF assms(1,2)] by (auto simp: order_def)
  have b: "fst (begin_iom h w) =
      \<lparr>it_iter = (case ?ns of [] \<Rightarrow> None | x # _ \<Rightarrow> Some (fst x)),
        it_list = data w h, it_ptr = h\<rparr>"
    by (simp add: begin_iom_def pointee_def)
  have "walk (Suc (length ?ns))
      \<lparr>it_iter = (case ?ns of [] \<Rightarrow> None | x # _ \<Rightarrow> Some (fst x)),
        it_list = data w h, it_ptr = h\<rparr> w
      = map (\<lambda>x. (snd x, the (lookup w h (snd x)))) ?ns"
    using assms(3) d _ p by (rule walk_nodes[where pre = "[]"]) simp_all
  then show ?thesis
    by (simp add: traverse_def b size_iom_def pointee_def order_def comp_def)
qed

lemma construct_Inr:
  assumes "world_inv w" "construct w = Inr (h, w')"
  shows "world_inv w' \<and> live w' h \<and> order w' h = [] \<and> pointee w' h = new_structure"
proof -
  from assms(2) have h: "h = length (handles w)"
    and hp: "heap w' = heap w @ [new_structure]"
    and hd: "handles w' = handles w @ [Some (length (heap w))]"
    by (auto simp: construct_def may_throw_def Let_def split: if_splits)
  have "handles_ok w'"
    using assms(1) by (fastforce simp: world_inv_def handles_ok_def hp hd split: option.splits)
  moreover have "\<forall>s\<in>set (heap w'). struct_inv s"
    using assms(1) by (auto simp: world_inv_def hp struct_inv_new)
  moreover have "pointee w' h = new_structure"
    by (simp add: pointee_def data_def h hp hd)
  ultimately show ?thesis
    by (simp add: world_inv_def live_def order_def h hd new_structure_def)
qed

lemma init_inv: "world_inv (init fs dv)"
  by (simp add: init_def world_inv_def handles_ok_def)

text \<open>
  C4. For an empty container (in particular one just constructed) and a list of pairs: the
  insertions all return when nothing throws, and whenever they all return, \<open>size()\<close> is the
  number of distinct keys of the list, and if the keys of the list are distinct the
  iteration order is the list of keys in the order of insertion. (In general the iteration
  order lists every key once, in the order of the last insertions.) The iteration order is
  what a loop from \<open>begin()\<close> to \<open>end()\<close> yields when nothing throws.
\<close>

theorem size_and_order_after_inserts:
  assumes "world_inv w" "live w h" "order w h = []"
  shows "(faults w = [] \<longrightarrow> (\<exists>bs w'. insert_all h kvs w = Inr (bs, w'))) \<and>
    (\<forall>bs w'. insert_all h kvs w = Inr (bs, w') \<longrightarrow>
       fst (size_iom h w') = card (set (map fst kvs)) \<and>
       order w' h = remdups (map fst kvs) \<and>
       (distinct (map fst kvs) \<longrightarrow> order w' h = map fst kvs) \<and>
       (faults w' = [] \<longrightarrow> map fst (traverse h w') = order w' h))"
proof (intro conjI allI impI)
  assume "faults w = []"
  then show "\<exists>bs w'. insert_all h kvs w = Inr (bs, w')"
    using insert_all_no_faults[of w h kvs] by blast
next
  fix bs w'
  assume r: "insert_all h kvs w = Inr (bs, w')"
  have o: "order w' h = remdups (map fst kvs)"
    using insert_all_order[OF assms(1,2) r] assms(3) by simp
  show "order w' h = remdups (map fst kvs)" by (rule o)
  have "fst (size_iom h w') = length (order w' h)"
    by (simp add: size_iom_def order_def pointee_def)
  then show "fst (size_iom h w') = card (set (map fst kvs))"
    using o by (simp add: length_remdups_card_conv)
  show "order w' h = map fst kvs" if "distinct (map fst kvs)"
    using o that by (simp add: distinct_remdups_id)
  show "map fst (traverse h w') = order w' h" if "faults w' = []"
  proof -
    have "world_inv w'" "live w' h" using insert_all_order[OF assms(1,2) r] by simp_all
    then have "traverse h w' = map (\<lambda>k. (k, the (lookup w' h k))) (order w' h)"
      using that by (rule traverse_order)
    then show ?thesis by (simp add: comp_def)
  qed
qed

theorem size_and_order_after_inserts_witness:
  "(\<exists>w. construct (init [] 0) = Inr (0, w) \<and> world_inv w \<and> live w 0 \<and> order w 0 = [] \<and>
     (\<exists>bs w'. insert_all 0 [(''x'', 1::int), (''y'', 2), (''z'', 3)] w = Inr (bs, w') \<and>
        fst (size_iom 0 w') = 3 \<and> order w' 0 = [''x'', ''y'', ''z''] \<and>
        map fst (traverse 0 w') = [''x'', ''y'', ''z'']) \<and>
     (\<exists>bs w'. insert_all 0 [(''x'', 1::int), (''y'', 2), (''x'', 3)] w = Inr (bs, w') \<and>
        fst (size_iom 0 w') = 2 \<and> order w' 0 = [''y'', ''x'']))"
proof -
  obtain w where c: "construct (init [] 0 :: (string, int) world) = Inr (0, w)"
    and f: "faults w = []"
    by (simp add: construct_def init_def may_throw_def)
  have w: "world_inv w" "live w 0" "order w 0 = []"
    using construct_Inr[OF init_inv c] by simp_all
  note t1 = size_and_order_after_inserts[OF w, of "[(''x'', 1), (''y'', 2), (''z'', 3)]"]
  note t2 = size_and_order_after_inserts[OF w, of "[(''x'', 1), (''y'', 2), (''x'', 3)]"]
  obtain bs1 w1 where r1: "insert_all 0 [(''x'', 1), (''y'', 2), (''z'', 3)] w = Inr (bs1, w1)"
    and f1: "faults w1 = []"
    using insert_all_no_faults[OF f] by blast
  have 1: "fst (size_iom 0 w1) = 3 \<and> order w1 0 = [''x'', ''y'', ''z''] \<and>
      map fst (traverse 0 w1) = [''x'', ''y'', ''z'']"
    using t1 r1 f1 by (simp del: insert_all.simps)
  obtain bs2 w2 where r2: "insert_all 0 [(''x'', 1), (''y'', 2), (''x'', 3)] w = Inr (bs2, w2)"
    using t2 f by blast
  have "{''x'', ''y'', ''x''} = {''x'', ''y''}" by auto
  then have "card {''x'', ''y'', ''x''} = 2" by simp
  then have 2: "fst (size_iom 0 w2) = 2 \<and> order w2 0 = [''y'', ''x'']"
    using t2 r2 by (simp del: insert_all.simps)
  have e1: "\<exists>bs w'. insert_all 0 [(''x'', 1), (''y'', 2), (''z'', 3)] w = Inr (bs, w') \<and>
      fst (size_iom 0 w') = 3 \<and> order w' 0 = [''x'', ''y'', ''z''] \<and>
      map fst (traverse 0 w') = [''x'', ''y'', ''z'']"
    using r1 1 by (intro exI[of _ bs1] exI[of _ w1] conjI; simp del: insert_all.simps)
  have e2: "\<exists>bs w'. insert_all 0 [(''x'', 1), (''y'', 2), (''x'', 3)] w = Inr (bs, w') \<and>
      fst (size_iom 0 w') = 2 \<and> order w' 0 = [''y'', ''x'']"
    using r2 2 by (intro exI[of _ bs2] exI[of _ w2] conjI; simp del: insert_all.simps)
  from c w e1 e2 show ?thesis by - (rule exI[of _ w], intro conjI, assumption+)
qed

section \<open>What a call on one container does to the other containers\<close>

lemma frame_refl: "handles_ok w \<Longrightarrow> frame h w w"
  by (simp add: frame_def)

lemma frame_trans: "frame h w w1 \<Longrightarrow> frame h w1 w2 \<Longrightarrow> frame h w w2"
  by (simp add: frame_def)

lemma frame_store_eq: "handles_ok w \<Longrightarrow> store_eq w w' \<Longrightarrow> frame h w w'"
  by (simp add: frame_def store_eq_handles_ok store_eq_live store_eq_data store_eq_pointee)
    (simp add: store_eq_def)

lemma frame_store_eq_right: "frame h w w1 \<Longrightarrow> store_eq w1 w' \<Longrightarrow> frame h w w'"
  by (simp add: frame_def store_eq_handles_ok store_eq_live store_eq_data store_eq_pointee)
    (simp add: store_eq_def)

lemma v_default_apply_op: "v_default (apply_op h f w) = v_default w"
  by (simp add: apply_op_def upd_def owned_def cloned_def set_data_def)

lemma frame_apply_op:
  assumes "handles_ok w" "live w h"
  shows "frame h w (apply_op h f w)"
  using assms
  by (simp add: frame_def handles_ok_apply_op live_apply_op data_apply_op_other
      pointee_apply_op_other v_default_apply_op)

lemma frame_rolled_back:
  assumes "handles_ok w" "rolled_back h w w'"
  shows "frame h' w w'"
proof -
  have "handles_ok w'"
    using assms by (fastforce simp: rolled_back_def handles_ok_def split: option.splits)
  moreover have "data w' b = data w b" for b
    using assms(2) by (simp add: rolled_back_def data_def)
  ultimately show ?thesis
    using assms rolled_back_live[OF assms(2)] rolled_back_pointee[OF assms(1) _ assms(2)]
    by (simp add: frame_def rolled_back_def)
qed

lemma frame_upd_own:
  assumes "handles_ok w" "live w h" "\<not> 1 < use_count w (data w h)"
  shows "frame h w (upd (data w h) f w)"
  using frame_apply_op[OF assms(1,2), of f] assms(3) by (simp add: apply_op_exclusive)

text \<open>Every outcome of a call is one of three: the store as it was, the store with an
  unowned clone more, or the write of some \<open>f\<close> through the owned pointer.\<close>

lemma sum_cases:
  obtains (Inl) e w' where "r = Inl (e, w')" | (Inr) x w' where "r = Inr (x, w')"
  by (cases r) auto

lemma insert_iom_frame:
  assumes "handles_ok w" "live w h"
  shows "frame h w (outcome (insert_iom h k v w))"
proof (cases "insert_iom h k v w" rule: sum_cases)
  case (Inl e w')
  then show ?thesis
    using insert_iom_Inl[OF assms Inl] frame_rolled_back[OF assms(1)] by (auto simp: outcome_def)
next
  case (Inr b w')
  then show ?thesis
    using insert_iom_Inr[OF assms Inr] frame_store_eq_right[OF frame_apply_op[OF assms]]
    by (auto simp: outcome_def)
qed

lemma erase_frame:
  assumes "handles_ok w" "live w h"
  shows "frame h w (outcome (erase h k w))"
proof (cases "erase h k w" rule: sum_cases)
  case (Inl e w')
  then show ?thesis
    using erase_Inl[OF assms Inl] frame_rolled_back[OF assms(1)] by (auto simp: outcome_def)
next
  case (Inr b w')
  then show ?thesis
    using erase_Inr[OF assms Inr] frame_store_eq_right[OF frame_apply_op[OF assms]]
    by (auto simp: outcome_def)
qed

lemma clear_frame:
  assumes "handles_ok w" "live w h"
  shows "frame h w (outcome (clear h w))"
proof (cases "clear h w" rule: sum_cases)
  case (Inl e w')
  then show ?thesis
    using clear_Inl[OF Inl] frame_store_eq[OF assms(1)] by (auto simp: outcome_def)
next
  case (Inr b w')
  then show ?thesis
    using clear_Inr[OF assms Inr] frame_store_eq_right[OF frame_apply_op[OF assms]]
    by (auto simp: outcome_def)
qed

lemma at_frame:
  assumes "handles_ok w" "live w h"
  shows "frame h w (outcome (at h k w))"
proof (cases "at h k w" rule: sum_cases)
  case (Inl e w')
  then show ?thesis
    using at_Inl[OF assms Inl] frame_rolled_back[OF assms(1)]
      frame_store_eq_right[OF frame_upd_own[OF assms]]
    by (auto simp: outcome_def)
next
  case (Inr b w')
  then show ?thesis
    using at_Inr[OF assms Inr] frame_store_eq_right[OF frame_apply_op[OF assms]]
    by (auto simp: outcome_def)
qed

section \<open>Indexed access\<close>

lemma undo_insert_ins:
  assumes "mappings s k = None"
  shows "undo_insert k (ins k v s) = set_flag False s"
proof -
  have "(mappings s)(k := None) = mappings s" using assms by auto
  then show ?thesis using assms by (simp add: undo_insert_def ins_def set_flag_def Let_def)
qed

lemma undo_insert_fun:
  "(\<lambda>s. s\<lparr>mappings := (mappings s)(k := None), insertions := butlast (insertions s)\<rparr>)
     = undo_insert k"
  by (rule ext) (simp add: undo_insert_def)

lemma undo_insert_set_flag: "undo_insert k (set_flag b s) = set_flag b (undo_insert k s)"
  by (simp add: undo_insert_def set_flag_def)

lemma set_flag_twice: "set_flag b (set_flag c s) = set_flag b s"
  by (simp add: set_flag_def)

lemma world_inv_upd_at:
  assumes "world_inv w" "struct_inv (f (heap w ! a))"
  shows "world_inv (upd a f w)"
proof -
  have "set ((heap w)[a := f (heap w ! a)]) \<subseteq> insert (f (heap w ! a)) (set (heap w))"
    by (rule set_update_subset_insert)
  then have "\<forall>s\<in>set (heap (upd a f w)). struct_inv s"
    using assms by (auto simp: world_inv_def upd_def)
  then show ?thesis using assms(1) by (simp add: world_inv_def handles_ok_upd)
qed

lemma private_insert_good:
  assumes "handles_ok w" "live w h" "private_insert h k v w = Inr (r, w')"
  shows "frame h w w'" and "handles_ok w'" and "live w' h"
    and "\<not> 1 < use_count w' (data w' h)"
    and "pointee w' h = ins k v (pointee (owned h w) h)"
    and "r = (k, mappings (pointee (owned h w) h) k = None)"
    and "world_inv w \<Longrightarrow> world_inv w'"
proof -
  have eff: "store_eq (apply_op h (ins k v) w) w'"
    and r: "r = (k, mappings (pointee (owned h w) h) k = None)"
    using private_insert_Inr[OF assms] by simp_all
  show "frame h w w'" using frame_apply_op[OF assms(1,2)] eff by (rule frame_store_eq_right)
  show "handles_ok w'"
    using store_eq_handles_ok[OF eff] handles_ok_apply_op[OF assms(1)] by simp
  show "live w' h" using store_eq_live[OF eff] live_apply_op[OF assms(2)] assms(2) by simp
  show "\<not> 1 < use_count w' (data w' h)"
    using use_count_apply_op[OF assms(1,2), of "ins k v"]
    by (simp add: store_eq_use_count[OF eff] store_eq_data[OF eff])
  show "pointee w' h = ins k v (pointee (owned h w) h)"
    using store_eq_pointee[OF eff] pointee_apply_op[OF assms(1,2)] by simp
  show "r = (k, mappings (pointee (owned h w) h) k = None)" by (rule r)
  show "world_inv w'" if "world_inv w"
  proof -
    have "world_inv (apply_op h (ins k v) w)"
      using that assms(2) struct_inv_ins by (rule world_inv_apply_op)
    then show ?thesis using store_eq_world_inv[OF eff] by simp
  qed
qed

lemma at_failed:
  assumes "handles_ok w" "live w h" "\<not> 1 < use_count w (data w h)" "at h k w = Inl (e, w')"
  shows "frame h w w'" and "handles w' = handles w"
    and "pointee w' h = pointee w h \<or> pointee w' h = set_flag False (pointee w h)"
    and "world_inv w \<Longrightarrow> world_inv w'"
proof -
  note shape = at_Inl[OF assms(1,2,4)]
  show "frame h w w'"
    using shape frame_rolled_back[OF assms(1)] frame_store_eq_right[OF frame_upd_own[OF assms(1,2,3)]]
    by auto
  show "handles w' = handles w"
    using shape by (auto simp: rolled_back_def store_eq_def upd_def)
  show "pointee w' h = pointee w h \<or> pointee w' h = set_flag False (pointee w h)"
  proof (cases "rolled_back h w w'")
    case True
    then show ?thesis using rolled_back_pointee[OF assms(1,2)] by simp
  next
    case False
    then have "store_eq (upd (data w h) (set_flag False) w) w'" using shape by simp
    then have "pointee w' h = pointee (upd (data w h) (set_flag False) w) h"
      by (rule store_eq_pointee)
    then show ?thesis using pointee_upd_self[OF assms(1,2)] by simp
  qed
  show "world_inv w'" if inv: "world_inv w"
  proof -
    have "world_inv (upd (data w h) (set_flag False) w)"
      using inv by (rule world_inv_upd) (simp add: struct_inv_set_flag)
    then show ?thesis
      using shape world_inv_rolled_back[OF inv assms(2)] by (auto dest: store_eq_world_inv)
  qed
qed

lemma at_good:
  assumes "handles_ok w" "live w h" "at h k w = Inr (r, w')"
  shows "frame h w w'" and "handles_ok w'" and "live w' h"
    and "\<not> 1 < use_count w' (data w' h)"
    and "pointee w' h = set_flag True (pointee (owned h w) h)"
    and "r = (data w' h, k)"
    and "world_inv w \<Longrightarrow> world_inv w'"
proof -
  have eff: "store_eq (apply_op h (set_flag True) w) w'" and r: "r = (data w' h, k)"
    using at_Inr[OF assms] by simp_all
  show "frame h w w'" using frame_apply_op[OF assms(1,2)] eff by (rule frame_store_eq_right)
  show "handles_ok w'"
    using store_eq_handles_ok[OF eff] handles_ok_apply_op[OF assms(1)] by simp
  show "live w' h" using store_eq_live[OF eff] live_apply_op[OF assms(2)] assms(2) by simp
  show "\<not> 1 < use_count w' (data w' h)"
    using use_count_apply_op[OF assms(1,2), of "set_flag True"]
    by (simp add: store_eq_use_count[OF eff] store_eq_data[OF eff])
  show "pointee w' h = set_flag True (pointee (owned h w) h)"
    using store_eq_pointee[OF eff] pointee_apply_op[OF assms(1,2)] by simp
  show "r = (data w' h, k)" by (rule r)
  show "world_inv w'" if "world_inv w"
  proof -
    have "world_inv (apply_op h (set_flag True) w)"
      using that assms(2) by (rule world_inv_apply_op) (simp add: struct_inv_set_flag)
    then show ?thesis using store_eq_world_inv[OF eff] by simp
  qed
qed

text \<open>The three ways \<open>operator[]\<close> ends: it returns; it throws before or inside
  \<open>private_insert\<close>; it throws inside \<open>at\<close>, after \<open>private_insert\<close> has returned.\<close>

lemma subscript_cases:
  assumes "handles_ok w" "live w h"
  obtains
    (returns) r w0 w1 w' ir where "subscript h k w = Inr (r, w')" "store_eq w w0"
      "private_insert h k (v_default w) w0 = Inr (ir, w1)" "at h k w1 = Inr (r, w')"
  | (early) e w' where "subscript h k w = Inl (e, w')" "rolled_back h w w'"
  | (late) e w0 w1 w2 ir where "store_eq w w0"
      "private_insert h k (v_default w) w0 = Inr (ir, w1)" "at h k w1 = Inl (e, w2)"
      "subscript h k w = Inl (e, if snd ir then upd (data w2 h) (undo_insert k) w2 else w2)"
proof (cases "may_throw w" rule: sum_cases)
  case (Inl e w')
  then have "subscript h k w = Inl (e, w')" by (simp add: subscript_def)
  moreover have "rolled_back h w w'"
    using may_throw_Inl[OF Inl] by (simp add: store_eq_rolled_back)
  ultimately show ?thesis by (rule early)
next
  case (Inr u w0)
  have eq0: "store_eq w w0" using Inr by (rule may_throw_Inr)
  then have dv: "v_default w0 = v_default w" by (simp add: store_eq_def)
  have ok0: "handles_ok w0" "live w0 h"
    using assms store_eq_handles_ok[OF eq0] store_eq_live[OF eq0] by simp_all
  show ?thesis
  proof (cases "private_insert h k (v_default w) w0" rule: sum_cases)
    case (Inl e w')
    then have "subscript h k w = Inl (e, w')" using Inr by (simp add: subscript_def dv)
    moreover have "rolled_back h w w'"
      using private_insert_Inl[OF ok0 Inl] eq0
      by (simp add: rolled_back_def store_eq_def pointee_def data_def)
    ultimately show ?thesis by (rule early)
  next
    case ins: (Inr ir w1)
    show ?thesis
    proof (cases "at h k w1" rule: sum_cases)
      case (Inl e w2)
      have "fst ir = k" using private_insert_Inr[OF ok0 ins] by simp
      then have "subscript h k w =
          Inl (e, if snd ir then upd (data w2 h) (undo_insert k) w2 else w2)"
        using Inr ins Inl by (simp add: subscript_def dv undo_insert_fun)
      with eq0 ins Inl show ?thesis by (rule late)
    next
      case at: (Inr r w')
      then have "subscript h k w = Inr (r, w')"
        using Inr ins by (simp add: subscript_def dv)
      then show ?thesis using eq0 ins at by (rule returns)
    qed
  qed
qed

lemma relink_keeps: "m k \<noteq> None \<Longrightarrow> relink ns dv m k \<noteq> None"
  by (induction ns dv m rule: relink.induct) auto

lemma clone_keeps: "mappings s k \<noteq> None \<Longrightarrow> mappings (clone dv s) k \<noteq> None"
  by (simp add: mappings_clone relink_keeps)

lemma at_no_faults:
  assumes "handles_ok w" "live w h" "faults w = []" "mappings (pointee w h) k \<noteq> None"
  shows "\<exists>r w'. at h k w = Inr (r, w') \<and> faults w' = []"
proof -
  have c: "contains h k w = Inr (True, w)"
    using assms(3,4) by (simp add: contains_def may_throw_no_faults pointee_def)
  obtain w1 where cow: "copy_on_write h w = Inr (data w h, w1)" and f1: "faults w1 = []"
    using copy_on_write_no_faults[OF assms(3)] by blast
  have "store_eq (owned h w) w1"
    using cow assms(3)
    by (auto simp: copy_on_write_def copy_def may_throw_no_faults owned_def cloned_def
        store_eq_def Let_def split: if_splits)
  then have p1: "pointee w1 h = pointee (owned h w) h" by (rule store_eq_pointee)
  have present: "mappings (pointee w1 h) k \<noteq> None"
    using assms(2,4) clone_keeps[of "pointee w h" k "v_default w"]
    by (auto simp: p1 pointee_owned_self)
  let ?w2 = "upd (data w1 h) (\<lambda>s. s\<lparr>non_const_refs_given := True\<rparr>) w1"
  have ok1: "handles_ok w1" "live w1 h"
    using \<open>store_eq (owned h w) w1\<close> assms(1,2)
    by (simp_all add: store_eq_handles_ok store_eq_live handles_ok_owned live_owned)
  have "pointee ?w2 h = (pointee w1 h)\<lparr>non_const_refs_given := True\<rparr>"
    using ok1 by (rule pointee_upd_self)
  then have "mappings (heap ?w2 ! data ?w2 h) k \<noteq> None"
    using present by (simp add: pointee_def)
  then obtain v where "mappings_at (data ?w2 h) k ?w2 = Inr (v, ?w2)"
    using f1 by (auto simp: mappings_at_def may_throw_no_faults)
  then show ?thesis using c cow f1 by (simp add: at_def Let_def)
qed

lemma set_flag_False_ins: "set_flag False (ins k v s) = ins k v s"
  by (simp add: set_flag_def ins_def Let_def split: option.splits)

lemma subscript_returns:
  assumes "world_inv w" "live w h" "subscript h k w = Inr (r, w')"
  shows "pointee w' h = set_flag True (ins k (v_default w) (pointee (owned h w) h))"
    and "r = (data w' h, k)"
    and "\<not> 1 < use_count w' (data w' h)"
    and "handles_ok w'" and "live w' h"
proof -
  have ok: "handles_ok w" using assms(1) by (simp add: world_inv_def)
  have "pointee w' h = set_flag True (ins k (v_default w) (pointee (owned h w) h)) \<and>
      r = (data w' h, k) \<and> \<not> 1 < use_count w' (data w' h) \<and> handles_ok w' \<and> live w' h"
    using ok assms(2)
  proof (cases rule: subscript_cases[where k = k])
    case (returns r0 w0 w1 w2 ir)
    then have same: "r0 = r" "w2 = w'" using assms(3) by simp_all
    have ok0: "handles_ok w0" "live w0 h"
      using ok assms(2) returns(2) by (simp_all add: store_eq_handles_ok store_eq_live)
    note ins = private_insert_good[OF ok0 returns(3)]
    note at = at_good[OF ins(2,3) returns(4)]
    have "pointee (owned h w0) h = pointee (owned h w) h"
      using store_eq_owned[OF returns(2), of h] by (simp add: store_eq_pointee)
    then have "pointee w2 h = set_flag True (ins k (v_default w) (pointee (owned h w) h))"
      using at(5) ins(4,5) by (simp add: owned_exclusive)
    then show ?thesis using at same by simp
  next
    case (early e w')
    then show ?thesis using assms(3) by simp
  next
    case (late e w0 w1 w2 ir)
    then show ?thesis using assms(3) by simp
  qed
  then show "pointee w' h = set_flag True (ins k (v_default w) (pointee (owned h w) h))"
    and "r = (data w' h, k)" and "\<not> 1 < use_count w' (data w' h)"
    and "handles_ok w'" and "live w' h"
    by simp_all
qed

lemma subscript_no_faults:
  assumes "world_inv w" "live w h" "faults w = []"
  shows "\<exists>r w'. subscript h k w = Inr (r, w')"
proof -
  have ok: "handles_ok w" using assms(1) by (simp add: world_inv_def)
  obtain ir w1 where ins: "private_insert h k (v_default w) w = Inr (ir, w1)"
    and f1: "faults w1 = []"
    using private_insert_no_faults[OF assms(3)] by blast
  note good = private_insert_good[OF ok assms(2) ins]
  have "mappings (pointee w1 h) k \<noteq> None" by (simp add: good(5) mappings_ins)
  then obtain r w' where "at h k w1 = Inr (r, w')"
    using at_no_faults[OF good(2,3) f1] by blast
  then show ?thesis
    using ins assms(3) by (simp add: subscript_def may_throw_no_faults)
qed

lemma ref_assign_lookup:
  assumes "handles_ok w" "live w h" "mappings (pointee w h) k \<noteq> None"
  shows "lookup (ref_assign (data w h, k) v w) h k = Some v"
    and "order (ref_assign (data w h, k) v w) h = order w h"
    and "k' \<noteq> k \<Longrightarrow> lookup (ref_assign (data w h, k) v w) h k' = lookup w h k'"
proof -
  let ?f = "\<lambda>s. case mappings s k of None \<Rightarrow> s
            | Some e \<Rightarrow> s\<lparr>mappings := (mappings s)(k \<mapsto> e\<lparr>val := v\<rparr>)\<rparr>"
  have p: "pointee (ref_assign (data w h, k) v w) h = ?f (pointee w h)"
    unfolding ref_assign_def fst_conv snd_conv using assms(1,2) by (rule pointee_upd_self)
  show "lookup (ref_assign (data w h, k) v w) h k = Some v"
    using assms(3) by (auto simp: lookup_def p)
  show "order (ref_assign (data w h, k) v w) h = order w h"
    by (simp add: order_def p split: option.splits)
  show "lookup (ref_assign (data w h, k) v w) h k' = lookup w h k'" if "k' \<noteq> k"
    using that by (simp add: lookup_def p split: option.splits)
qed

text \<open>
  C6. For a container satisfying the invariant, \<open>operator[](k)\<close> returns when nothing throws,
  and whenever it returns: the result is a reference to the entry of \<open>k\<close> in the pointee of
  the container (a write through it sets the value of \<open>k\<close>); an absent \<open>k\<close> has been
  appended with the default value; a present \<open>k\<close> keeps its value and has become the last
  key of the iteration order; no other key changes its value; and the flag
  \<open>non_const_refs_given\<close> of the pointee is set.
\<close>

theorem subscript_inserts_or_moves:
  assumes "world_inv w" "live w h"
  shows "(faults w = [] \<longrightarrow> (\<exists>r w'. subscript h k w = Inr (r, w'))) \<and>
    (\<forall>r w'. subscript h k w = Inr (r, w') \<longrightarrow>
       r = (data w' h, k) \<and>
       (\<forall>v. lookup (ref_assign r v w') h k = Some v) \<and>
       non_const_refs_given (pointee w' h) = True \<and>
       (lookup w h k = None \<longrightarrow>
          lookup w' h k = Some (v_default w) \<and> order w' h = order w h @ [k]) \<and>
       (\<forall>v. lookup w h k = Some v \<longrightarrow>
          lookup w' h k = Some v \<and> order w' h = filter (\<lambda>x. x \<noteq> k) (order w h) @ [k]) \<and>
       (\<forall>k'. k' \<noteq> k \<longrightarrow> lookup w' h k' = lookup w h k'))"
proof (intro conjI allI impI)
  assume "faults w = []"
  then show "\<exists>r w'. subscript h k w = Inr (r, w')"
    using subscript_no_faults[OF assms] by blast
next
  fix r w'
  assume res: "subscript h k w = Inr (r, w')"
  note ret = subscript_returns[OF assms res]
  note view = owned_view[OF assms]
  let ?s = "pointee (owned h w) h"
  have ord: "order w' h = filter (\<lambda>x. x \<noteq> k) (order w h) @ [k]"
    using keys_ins[OF view(1)] view(2) by (simp add: order_def ret(1) set_flag_def)
  have look: "lookup w' h k' =
      (if k' = k then (case mappings ?s k of None \<Rightarrow> Some (v_default w) | Some e \<Rightarrow> Some (val e))
       else map_option val (mappings ?s k'))" for k'
    using values_ins[of k "v_default w" ?s k'] by (simp add: lookup_def ret(1) set_flag_def)
  show "r = (data w' h, k)" by (rule ret(2))
  show "non_const_refs_given (pointee w' h) = True" by (simp add: ret(1) set_flag_def)
  have "mappings (pointee w' h) k \<noteq> None" by (simp add: ret(1) set_flag_def mappings_ins)
  then show "lookup (ref_assign r v w') h k = Some v" for v
    using ref_assign_lookup(1)[OF ret(4,5)] by (simp add: ret(2))
  show "lookup w' h k' = lookup w h k'" if "k' \<noteq> k" for k'
    using that look[of k'] view(3)[of k'] by simp
  {
    assume absent: "lookup w h k = None"
    then have "mappings ?s k = None" using view(4)[of k] by simp
    then show "lookup w' h k = Some (v_default w)" using look[of k] by simp
    have "k \<notin> set (order w h)" using order_lookup[OF assms, of k] absent by simp
    then show "order w' h = order w h @ [k]" using ord by (simp add: filter_absent)
  }
  {
    fix v
    assume present: "lookup w h k = Some v"
    then show "lookup w' h k = Some v"
      using look[of k] view(3)[of k] by (auto split: option.splits)
    show "order w' h = filter (\<lambda>x. x \<noteq> k) (order w h) @ [k]" by (rule ord)
  }
qed

theorem subscript_inserts_or_moves_witness:
  "world_inv shared_ab \<and> live shared_ab 0 \<and> lookup shared_ab 0 ''a'' = Some 1 \<and>
   lookup shared_ab 0 ''c'' = None \<and> v_default shared_ab = 0 \<and>
   (\<exists>r w'. subscript 0 ''a'' shared_ab = Inr (r, w') \<and> r = (data w' 0, ''a'') \<and>
      lookup (ref_assign r 7 w') 0 ''a'' = Some 7 \<and> non_const_refs_given (pointee w' 0) \<and>
      lookup w' 0 ''a'' = Some 1 \<and> order w' 0 = [''b'', ''a'']) \<and>
   (\<exists>r w'. subscript 0 ''c'' shared_ab = Inr (r, w') \<and> r = (data w' 0, ''c'') \<and>
      non_const_refs_given (pointee w' 0) \<and>
      lookup w' 0 ''c'' = Some 0 \<and> order w' 0 = [''a'', ''b'', ''c''])"
proof -
  note a = subscript_inserts_or_moves[OF shared_ab_inv shared_ab_live(1), of "''a''"]
  note c = subscript_inserts_or_moves[OF shared_ab_inv shared_ab_live(1), of "''c''"]
  have dv: "v_default shared_ab = 0" by (simp add: shared_ab_def)
  obtain r w' where r: "subscript 0 ''a'' shared_ab = Inr (r, w')"
    using a shared_ab_view(9) by blast
  have "r = (data w' 0, ''a'') \<and> lookup (ref_assign r 7 w') 0 ''a'' = Some 7 \<and>
      non_const_refs_given (pointee w' 0) \<and> lookup w' 0 ''a'' = Some 1 \<and>
      order w' 0 = [''b'', ''a'']"
    using a r shared_ab_view by force
  then have 1: "\<exists>r w'. subscript 0 ''a'' shared_ab = Inr (r, w') \<and> r = (data w' 0, ''a'') \<and>
      lookup (ref_assign r 7 w') 0 ''a'' = Some 7 \<and> non_const_refs_given (pointee w' 0) \<and>
      lookup w' 0 ''a'' = Some 1 \<and> order w' 0 = [''b'', ''a'']"
    using r by blast
  obtain r2 w2 where r2: "subscript 0 ''c'' shared_ab = Inr (r2, w2)"
    using c shared_ab_view(9) by blast
  have "r2 = (data w2 0, ''c'') \<and> non_const_refs_given (pointee w2 0) \<and>
      lookup w2 0 ''c'' = Some 0 \<and> order w2 0 = [''a'', ''b'', ''c'']"
    using c r2 shared_ab_view dv by force
  then have 2: "\<exists>r w'. subscript 0 ''c'' shared_ab = Inr (r, w') \<and> r = (data w' 0, ''c'') \<and>
      non_const_refs_given (pointee w' 0) \<and>
      lookup w' 0 ''c'' = Some 0 \<and> order w' 0 = [''a'', ''b'', ''c'']"
    using r2 by blast
  show ?thesis using 1 2 shared_ab_inv shared_ab_live(1) shared_ab_view dv by simp
qed

lemma frame_handles_ok: "frame h w w' \<Longrightarrow> handles_ok w'"
  by (simp add: frame_def)

lemma frame_live: "frame h w w' \<Longrightarrow> live w' b = live w b"
  by (simp add: frame_def)

lemma subscript_late:
  assumes "handles_ok w0" "live w0 h" "private_insert h k dv w0 = Inr (ir, w1)"
    "at h k w1 = Inl (e, w2)"
  defines "W \<equiv> if snd ir then upd (data w2 h) (undo_insert k) w2 else w2"
    and "s0 \<equiv> pointee (owned h w0) h"
  shows "frame h w0 W"
    and "pointee W h = (if mappings s0 k = None then set_flag False s0 else ins k dv s0)"
    and "world_inv w0 \<Longrightarrow> world_inv W"
proof -
  note g = private_insert_good[OF assms(1,2,3)]
  note f = at_failed[OF g(2,3,4) assms(4)]
  have p2: "pointee w2 h = ins k dv s0"
    using f(3) g(5) by (auto simp: s0_def set_flag_False_ins)
  have ok2: "handles_ok w2" using f(1) by (rule frame_handles_ok)
  have live2: "live w2 h" using frame_live[OF f(1)] g(3) by simp
  have excl2: "\<not> 1 < use_count w2 (data w2 h)"
    using g(4) f(2) by (simp add: use_count_def data_def)
  have fresh: "snd ir = (mappings s0 k = None)" using g(6) by (simp add: s0_def)
  have f02: "frame h w0 w2" using g(1) f(1) by (rule frame_trans)
  show "frame h w0 W"
  proof (cases "snd ir")
    case True
    have "frame h w2 (upd (data w2 h) (undo_insert k) w2)"
      using ok2 live2 excl2 by (rule frame_upd_own)
    with f02 show ?thesis using True by (simp add: W_def frame_trans)
  next
    case False
    then show ?thesis using f02 by (simp add: W_def)
  qed
  show pW: "pointee W h = (if mappings s0 k = None then set_flag False s0 else ins k dv s0)"
  proof (cases "snd ir")
    case True
    have "pointee (upd (data w2 h) (undo_insert k) w2) h = undo_insert k (pointee w2 h)"
      using ok2 live2 by (rule pointee_upd_self)
    then show ?thesis using True fresh by (simp add: W_def p2 undo_insert_ins)
  next
    case False
    then have "W = w2" by (simp add: W_def)
    moreover have "mappings s0 k \<noteq> None" using False fresh by simp
    ultimately show ?thesis using p2 by auto
  qed
  show "world_inv W" if inv: "world_inv w0"
  proof (cases "snd ir")
    case True
    have "struct_inv s0" unfolding s0_def using inv assms(2) by (rule owned_view(1))
    then have "struct_inv (undo_insert k (heap w2 ! data w2 h))"
      using True fresh p2 by (simp add: pointee_def undo_insert_ins struct_inv_set_flag)
    with f(4)[OF g(7)[OF inv]] have "world_inv (upd (data w2 h) (undo_insert k) w2)"
      by (rule world_inv_upd_at)
    then show ?thesis using True by (simp add: W_def)
  next
    case False
    then show ?thesis using f(4)[OF g(7)[OF inv]] by (simp add: W_def)
  qed
qed

lemma subscript_frame:
  assumes "handles_ok w" "live w h"
  shows "frame h w (outcome (subscript h k w))"
  using assms
proof (cases rule: subscript_cases[where k = k])
  case (returns r w0 w1 w' ir)
  have ok0: "handles_ok w0" "live w0 h"
    using assms returns(2) by (simp_all add: store_eq_handles_ok store_eq_live)
  note g = private_insert_good[OF ok0 returns(3)]
  note a = at_good[OF g(2,3) returns(4)]
  have "frame h w w0" using assms(1) returns(2) by (rule frame_store_eq)
  then have "frame h w w'" using g(1) a(1) by (blast intro: frame_trans)
  then show ?thesis using returns(1) by (simp add: outcome_def)
next
  case (early e w')
  then show ?thesis using frame_rolled_back[OF assms(1)] by (simp add: outcome_def)
next
  case (late e w0 w1 w2 ir)
  have ok0: "handles_ok w0" "live w0 h"
    using assms late(1) by (simp_all add: store_eq_handles_ok store_eq_live)
  have "frame h w w0" using assms(1) late(1) by (rule frame_store_eq)
  then show ?thesis
    using subscript_late(1)[OF ok0 late(2,3)] late(4) by (auto simp: outcome_def intro: frame_trans)
qed

lemma subscript_inv:
  assumes "world_inv w" "live w h"
  shows "world_inv (outcome (subscript h k w))"
proof -
  have ok: "handles_ok w" using assms(1) by (simp add: world_inv_def)
  from ok assms(2) show ?thesis
  proof (cases rule: subscript_cases[where k = k])
    case (returns r w0 w1 w' ir)
    have ok0: "handles_ok w0" "live w0 h" "world_inv w0"
      using ok assms returns(2)
      by (simp_all add: store_eq_handles_ok store_eq_live store_eq_world_inv)
    note g = private_insert_good[OF ok0(1,2) returns(3)]
    note a = at_good[OF g(2,3) returns(4)]
    show ?thesis using a(7)[OF g(7)[OF ok0(3)]] returns(1) by (simp add: outcome_def)
  next
    case (early e w')
    then show ?thesis using world_inv_rolled_back[OF assms] by (simp add: outcome_def)
  next
    case (late e w0 w1 w2 ir)
    have ok0: "handles_ok w0" "live w0 h" "world_inv w0"
      using ok assms late(1)
      by (simp_all add: store_eq_handles_ok store_eq_live store_eq_world_inv)
    show ?thesis
      using subscript_late(3)[OF ok0(1,2) late(2,3) ok0(3)] late(4) by (simp add: outcome_def)
  qed
qed

section \<open>Calls that throw\<close>

lemma same_view_pointee: "pointee w' h = pointee w h \<Longrightarrow> same_view w w' h"
  by (simp add: same_view_def order_def lookup_def)

lemma same_view_flag: "pointee w' h = set_flag b (pointee w h) \<Longrightarrow> same_view w w' h"
  by (simp add: same_view_def order_def lookup_def set_flag_def)

text \<open>The strong guarantee holds for \<open>insert\<close>, \<open>erase\<close>, the mutable \<open>at\<close> and \<open>clear\<close>: when
  one of them throws, the container shows what it showed before the call.\<close>

lemma strong_guarantee_insert_erase_at_clear:
  assumes "handles_ok w" "live w h"
  shows "insert_iom h k v w = Inl (e, w') \<Longrightarrow> same_view w w' h"
    and "erase h k w = Inl (e, w') \<Longrightarrow> same_view w w' h"
    and "at h k w = Inl (e, w') \<Longrightarrow> same_view w w' h"
    and "clear h w = Inl (e, w') \<Longrightarrow> same_view w w' h"
proof -
  show "same_view w w' h" if "insert_iom h k v w = Inl (e, w')"
    using insert_iom_Inl[OF assms that] rolled_back_pointee[OF assms]
    by (auto intro: same_view_pointee)
  show "same_view w w' h" if "erase h k w = Inl (e, w')"
    using erase_Inl[OF assms that] rolled_back_pointee[OF assms]
    by (auto intro: same_view_pointee)
  show "same_view w w' h" if "at h k w = Inl (e, w')"
  proof (cases "rolled_back h w w'")
    case True
    then show ?thesis using rolled_back_pointee[OF assms] by (auto intro: same_view_pointee)
  next
    case False
    then have "store_eq (upd (data w h) (set_flag False) w) w'"
      using at_Inl[OF assms that] by simp
    then have "pointee w' h = set_flag False (pointee w h)"
      using pointee_upd_self[OF assms, of "set_flag False"] by (simp add: store_eq_pointee)
    then show ?thesis by (rule same_view_flag)
  qed
  show "same_view w w' h" if "clear h w = Inl (e, w')"
    using clear_Inl[OF that] by (simp add: same_view_pointee store_eq_pointee)
qed

text \<open>
  C2, at the input where the code departs from it: \<open>operator[](a)\<close> on the container above
  throws, and the iteration order, \<open>a, b\<close> before the call, is \<open>b, a\<close> after it. The catch
  block of \<open>operator[]\<close> undoes a fresh insertion only; the move of an existing key to the
  end of the list, done by \<open>private_insert\<close>, stays.
\<close>

theorem subscript_throw_keeps_reordering:
  "\<exists>w'. subscript 0 ''a'' single_ab = Inl (propagated, w') \<and>
     order single_ab 0 = [''a'', ''b''] \<and> order w' 0 = [''b'', ''a''] \<and>
     lookup w' 0 ''a'' = Some 1 \<and> lookup w' 0 ''b'' = Some 2"
  by (simp add: single_ab_def subscript_def private_insert_def copy_on_write_def copy_def
      may_throw_def at_def contains_def mappings_at_def upd_def set_data_def data_def
      use_count_def order_def lookup_def pointee_def fresh_node_def erase_node_def Let_def)

section \<open>Merging\<close>

lemma quiet_refl: "handles_ok w \<Longrightarrow> quiet h w w"
  by (simp add: quiet_def frame_refl)

lemma quiet_trans: "quiet h w w1 \<Longrightarrow> quiet h w1 w2 \<Longrightarrow> quiet h w w2"
  by (auto simp: quiet_def data_def intro: frame_trans)

lemma quiet_store_eq: "handles_ok w \<Longrightarrow> store_eq w w' \<Longrightarrow> quiet h w w'"
  using store_eq_world_inv[of w w'] by (simp add: quiet_def frame_store_eq) (simp add: store_eq_def)

lemma quiet_rolled_back:
  assumes "handles_ok w" "live w h" "rolled_back h w w'"
  shows "quiet h w w'"
  using assms frame_rolled_back[OF assms(1,3)] world_inv_rolled_back[OF _ assms(2,3)]
  by (auto simp: quiet_def rolled_back_def nth_append)

lemma quiet_upd_own:
  assumes "handles_ok w" "live w h" "\<not> 1 < use_count w (data w h)"
    "\<And>s. struct_inv s \<Longrightarrow> struct_inv (f s)"
  shows "quiet h w (upd (data w h) f w)"
proof -
  have "frame h w (upd (data w h) f w)" using assms(1,2,3) by (rule frame_upd_own)
  moreover have "world_inv (upd (data w h) f w)" if "world_inv w"
    using that assms(4) by (rule world_inv_upd)
  ultimately show ?thesis by (simp add: quiet_def) (simp add: upd_def)
qed

lemma quiet_facts:
  assumes "quiet h w w'"
  shows "handles_ok w'" and "live w' b = live w b" and "data w' b = data w b"
    and "use_count w' a = use_count w a"
    and "b \<noteq> h \<Longrightarrow> live w b \<Longrightarrow> pointee w' b = pointee w b"
    and "a < length (heap w) \<Longrightarrow> a \<noteq> data w h \<Longrightarrow> heap w' ! a = heap w ! a"
    and "length (heap w) \<le> length (heap w')"
  using assms by (simp_all add: quiet_def frame_def data_def use_count_def)

lemma copy_Inr: "copy h w = Inr (u, w') \<Longrightarrow> store_eq (cloned h w) w'"
  by (auto simp: copy_def may_throw_def cloned_def store_eq_def set_data_def data_def Let_def
      split: if_splits)

lemma copy_Inl: "copy h w = Inl (e, w') \<Longrightarrow> store_eq w w'"
  by (auto simp: copy_def may_throw_def store_eq_def Let_def split: if_splits)

lemma frame_cloned: "handles_ok w \<Longrightarrow> live w h \<Longrightarrow> frame h w (cloned h w)"
  by (simp add: frame_def handles_ok_cloned live_cloned data_cloned_other pointee_cloned_other)
    (simp add: cloned_def set_data_def)

lemma insert_iom_quiet:
  assumes "handles_ok w" "live w h" "\<not> 1 < use_count w (data w h)"
  shows "quiet h w (outcome (insert_iom h k v w))"
    and "insert_iom h k v w = Inr (b, w') \<Longrightarrow> pointee w' h = ins k v (pointee w h)"
proof -
  show "quiet h w (outcome (insert_iom h k v w))"
  proof (cases "insert_iom h k v w" rule: sum_cases)
    case (Inl e w')
    then show ?thesis
      using insert_iom_Inl[OF assms(1,2) Inl] quiet_rolled_back[OF assms(1,2)]
      by (simp add: outcome_def)
  next
    case (Inr b w')
    have "store_eq (upd (data w h) (ins k v) w) w'"
      using insert_iom_Inr[OF assms(1,2) Inr] assms(3) by (simp add: apply_op_exclusive)
    moreover have "quiet h w (upd (data w h) (ins k v) w)"
      using assms struct_inv_ins by (rule quiet_upd_own)
    moreover have "handles_ok (upd (data w h) (ins k v) w)"
      using assms(1) by (simp add: handles_ok_upd)
    ultimately show ?thesis
      using Inr by (auto simp: outcome_def intro: quiet_trans quiet_store_eq)
  qed
  show "pointee w' h = ins k v (pointee w h)" if r: "insert_iom h k v w = Inr (b, w')"
  proof -
    have "store_eq (apply_op h (ins k v) w) w'" using insert_iom_Inr[OF assms(1,2) r] by simp
    then have "pointee w' h = pointee (apply_op h (ins k v) w) h" by (rule store_eq_pointee)
    then show ?thesis
      using pointee_apply_op[OF assms(1,2), of "ins k v"] assms(3) by (simp add: owned_exclusive)
  qed
qed

text \<open>The loop of \<open>merge\<close>, which runs on a pointee the container owns: it leaves the
  pointers and the other containers alone, and when it returns it has inserted every key of
  the list with the value \<open>other\<close> has for it.\<close>

lemma merge_loop_quiet:
  assumes "handles_ok w" "live w h" "live w other" "other \<noteq> h"
    "\<not> 1 < use_count w (data w h)"
  shows "quiet h w (outcome (merge_loop h other ks w)) \<and>
    (\<forall>u w'. merge_loop h other ks w = Inr (u, w') \<longrightarrow>
       pointee w' h = fold (\<lambda>k s. ins k (the (lookup w other k)) s) ks (pointee w h))"
  using assms
proof (induction ks arbitrary: w)
  case Nil
  then show ?case by (simp add: outcome_def quiet_refl)
next
  case (Cons k ks)
  show ?case
  proof (cases "may_throw w" rule: sum_cases)
    case (Inl e w0)
    then have "merge_loop h other (k # ks) w = Inl (e, w0)" by simp
    then show ?thesis
      using may_throw_Inl[OF Inl] quiet_store_eq[OF Cons.prems(1)] by (simp add: outcome_def)
  next
    case (Inr u w0)
    have eq0: "store_eq w w0" using Inr by (rule may_throw_Inr)
    show ?thesis
    proof (cases "at_const other k w0" rule: sum_cases)
      case (Inl e w1)
      then have "merge_loop h other (k # ks) w = Inl (e, w1)" using Inr by simp
      moreover have "store_eq w w1"
        using eq0 at_const_Inl[OF Inl] by (blast intro: store_eq_trans)
      ultimately show ?thesis
        using quiet_store_eq[OF Cons.prems(1)] by (simp add: outcome_def)
    next
      case at: (Inr v w1)
      have eq1: "store_eq w w1"
        using eq0 at_const_Inr[OF at] by (blast intro: store_eq_trans)
      have v: "lookup w other k = Some v"
        using at_const_Inr[OF at] store_eq_lookup[OF eq0] by simp
      have q1: "quiet h w w1" using Cons.prems(1) eq1 by (rule quiet_store_eq)
      have ok1: "handles_ok w1" "live w1 h" "live w1 other"
        "\<not> 1 < use_count w1 (data w1 h)"
        using Cons.prems eq1
        by (simp_all add: store_eq_handles_ok store_eq_live store_eq_use_count store_eq_data)
      have p1: "pointee w1 h = pointee w h" "pointee w1 other = pointee w other"
        using eq1 by (simp_all add: store_eq_pointee)
      note step = insert_iom_quiet[OF ok1(1,2,4), of k v]
      show ?thesis
      proof (cases "insert_iom h k v w1" rule: sum_cases)
        case (Inl e w2)
        then have "merge_loop h other (k # ks) w = Inl (e, w2)" using Inr at by simp
        moreover have "quiet h w w2"
          using q1 step(1) Inl by (auto simp: outcome_def intro: quiet_trans)
        ultimately show ?thesis by (simp add: outcome_def)
      next
        case ins: (Inr b w2)
        have q12: "quiet h w1 w2" using step(1) ins by (simp add: outcome_def)
        have p2: "pointee w2 h = ins k v (pointee w h)" using step(2)[OF ins] p1 by simp
        have ok2: "handles_ok w2" "live w2 h" "live w2 other"
          "\<not> 1 < use_count w2 (data w2 h)"
          using quiet_facts(1,2,3,4)[OF q12] ok1 by simp_all
        have po: "pointee w2 other = pointee w other"
          using quiet_facts(5)[OF q12 Cons.prems(4) ok1(3)] p1 by simp
        then have lo: "lookup w2 other = lookup w other" by (simp add: lookup_def fun_eq_iff)
        note ih = Cons.IH[OF ok2(1,2,3) Cons.prems(4) ok2(4)]
        have loop: "merge_loop h other (k # ks) w = merge_loop h other ks w2"
          using Inr at ins by simp
        have "quiet h w (outcome (merge_loop h other ks w2))"
          using q1 q12 ih by (blast intro: quiet_trans)
        moreover have "pointee w' h =
            fold (\<lambda>k s. ins k (the (lookup w other k)) s) (k # ks) (pointee w h)"
          if "merge_loop h other ks w2 = Inr (u', w')" for u' w'
          using ih that by (simp add: lo p2 v)
        ultimately show ?thesis unfolding loop by simp
      qed
    qed
  qed
qed

lemma merge_loop_no_faults:
  assumes "handles_ok w" "live w h" "live w other" "other \<noteq> h"
    "\<not> 1 < use_count w (data w h)" "faults w = []" "\<forall>k\<in>set ks. lookup w other k \<noteq> None"
  shows "\<exists>w'. merge_loop h other ks w = Inr ((), w') \<and> faults w' = []"
  using assms
proof (induction ks arbitrary: w)
  case Nil
  then show ?case by simp
next
  case (Cons k ks)
  obtain v where v: "lookup w other k = Some v" using Cons.prems(7) by auto
  have at: "at_const other k w = Inr (v, w)" using Cons.prems(6) v by (rule at_const_no_faults)
  obtain b w2 where ins: "insert_iom h k v w = Inr (b, w2)" and f2: "faults w2 = []"
    using insert_iom_no_faults[OF Cons.prems(6)] by blast
  have q: "quiet h w w2"
    using insert_iom_quiet(1)[OF Cons.prems(1,2,5), of k v] ins by (simp add: outcome_def)
  have ok2: "handles_ok w2" "live w2 h" "live w2 other" "\<not> 1 < use_count w2 (data w2 h)"
    using quiet_facts(1,2,3,4)[OF q] Cons.prems by simp_all
  have "pointee w2 other = pointee w other"
    using quiet_facts(5)[OF q Cons.prems(4,3)] .
  then have "\<forall>k\<in>set ks. lookup w2 other k \<noteq> None"
    using Cons.prems(7) by (simp add: lookup_def)
  then obtain w' where "merge_loop h other ks w2 = Inr ((), w')" "faults w' = []"
    using Cons.IH[OF ok2(1,2,3) Cons.prems(4) ok2(4) f2] by blast
  then show ?case using at ins Cons.prems(6) by (simp add: may_throw_no_faults)
qed

lemma frame_set_data:
  assumes "handles_ok w" "live w h" "a < length (heap w)"
  shows "frame h w (set_data h a w)" and "world_inv w \<Longrightarrow> world_inv (set_data h a w)"
    and "pointee (set_data h a w) h = heap w ! a"
proof -
  have "set ((handles w)[h := Some a]) \<subseteq> insert (Some a) (set (handles w))"
    by (rule set_update_subset_insert)
  then have ok: "handles_ok (set_data h a w)"
    using assms(1,3) by (fastforce simp: handles_ok_def set_data_def split: option.splits)
  have "live (set_data h a w) b = live w b" for b
    using assms(2) by (auto simp: live_def set_data_def nth_list_update)
  moreover have "data (set_data h a w) b = data w b \<and> pointee (set_data h a w) b = pointee w b"
    if "b \<noteq> h" for b
    using that by (simp add: data_def pointee_def set_data_def)
  ultimately show "frame h w (set_data h a w)"
    using ok by (simp add: frame_def) (simp add: set_data_def)
  show "world_inv (set_data h a w)" if "world_inv w"
    using that ok by (simp add: world_inv_def) (simp add: set_data_def)
  show "pointee (set_data h a w) h = heap w ! a"
    using assms(2) by (simp add: pointee_def data_def set_data_def live_def)
qed

text \<open>The three ways \<open>merge\<close> with another container ends: \<open>copy()\<close> throws; the loop throws;
  it returns.\<close>

lemma merge_cases:
  assumes "handles_ok w" "live w h" "live w other" "other \<noteq> h"
  obtains
    (copy_failed) e w' where "merge_iom h other w = Inl (e, w')" "store_eq w w'"
  | (loop_failed) e w1 w2 where "store_eq (cloned h w) w1"
      "merge_loop h other (order w other) w1 = Inl (e, w2)"
      "merge_iom h other w = Inl (e, set_data h (data w h) w2)"
  | (returns) u w1 w2 where "store_eq (cloned h w) w1"
      "merge_loop h other (order w other) w1 = Inr (u, w2)"
      "merge_iom h other w = Inr ((), upd (data w2 h) (set_flag False) w2)"
proof (cases "copy h w" rule: sum_cases)
  case (Inl e w1)
  have eq: "store_eq w w1" using Inl by (rule copy_Inl)
  have "(handles w)[h := Some (data w h)] = handles w"
    using assms(2) by (auto simp: live_def data_def list_update_same_conv)
  then have "store_eq w (set_data h (data w h) w1)"
    using eq by (simp add: store_eq_def set_data_def)
  moreover have "merge_iom h other w = Inl (e, set_data h (data w h) w1)"
    using Inl assms(4) by (simp add: merge_iom_def Let_def)
  ultimately show ?thesis using copy_failed by blast
next
  case (Inr u w1)
  have eq: "store_eq (cloned h w) w1" using Inr by (rule copy_Inr)
  have "pointee w1 other = pointee w other"
    using store_eq_pointee[OF eq, of other] pointee_cloned_other[OF assms(1,3,4)] by simp
  then have ks: "map snd (insertions (heap w1 ! data w1 other)) = order w other"
    by (simp add: order_def pointee_def)
  have flag: "(\<lambda>s. s\<lparr>non_const_refs_given := False\<rparr>) = set_flag False"
    by (rule ext) (simp add: set_flag_def)
  show ?thesis
  proof (cases "merge_loop h other (order w other) w1" rule: sum_cases)
    case (Inl e w2)
    then have "merge_iom h other w = Inl (e, set_data h (data w h) w2)"
      using Inr assms(4) ks by (simp add: merge_iom_def Let_def)
    with eq Inl show ?thesis by (rule loop_failed)
  next
    case loop: (Inr u' w2)
    then have "merge_iom h other w = Inr ((), upd (data w2 h) (set_flag False) w2)"
      using Inr assms(4) ks by (simp add: merge_iom_def Let_def flag)
    with eq loop show ?thesis by (rule returns)
  qed
qed

text \<open>The world in which the loop of \<open>merge\<close> starts.\<close>

lemma merge_start:
  assumes "handles_ok w" "live w h" "live w other" "other \<noteq> h" "store_eq (cloned h w) w1"
  shows "handles_ok w1" and "live w1 h" and "live w1 other"
    and "\<not> 1 < use_count w1 (data w1 h)"
    and "frame h w w1" and "world_inv w \<Longrightarrow> world_inv w1"
    and "pointee w1 h = clone (v_default w) (pointee w h)"
    and "lookup w1 other = lookup w other"
    and "data w1 h = length (heap w)" and "length (heap w1) = Suc (length (heap w))"
    and "a < length (heap w) \<Longrightarrow> heap w1 ! a = heap w ! a"
proof -
  note eq = assms(5)
  show "handles_ok w1" using assms(1) by (simp add: store_eq_handles_ok[OF eq] handles_ok_cloned)
  show "live w1 h" "live w1 other"
    using assms(2,3) by (simp_all add: store_eq_live[OF eq] live_cloned)
  show "\<not> 1 < use_count w1 (data w1 h)"
    using use_count_cloned[OF assms(1,2)]
    by (simp add: store_eq_use_count[OF eq] store_eq_data[OF eq])
  show "frame h w w1" using frame_cloned[OF assms(1,2)] eq by (rule frame_store_eq_right)
  show "world_inv w1" if "world_inv w"
    using world_inv_cloned[OF that assms(2)] by (simp add: store_eq_world_inv[OF eq])
  show "pointee w1 h = clone (v_default w) (pointee w h)"
    using assms(2) by (simp add: store_eq_pointee[OF eq] pointee_cloned_self)
  have "pointee w1 other = pointee w other"
    using store_eq_pointee[OF eq, of other] pointee_cloned_other[OF assms(1,3,4)] by simp
  then show "lookup w1 other = lookup w other" by (simp add: lookup_def fun_eq_iff)
  show "data w1 h = length (heap w)"
    using assms(2) by (simp add: store_eq_data[OF eq] data_cloned_self)
  show "length (heap w1) = Suc (length (heap w))"
    using eq by (simp add: store_eq_def cloned_def set_data_def)
  show "heap w1 ! a = heap w ! a" if "a < length (heap w)"
    using eq that by (simp add: store_eq_def cloned_def set_data_def nth_append)
qed

lemma merge_returns:
  assumes "handles_ok w" "live w h" "live w other" "other \<noteq> h"
    "merge_iom h other w = Inr (u, w')"
  shows "pointee w' h = set_flag False
      (fold (\<lambda>k s. ins k (the (lookup w other k)) s) (order w other)
         (clone (v_default w) (pointee w h)))"
  using assms(1,2,3,4)
proof (cases rule: merge_cases)
  case (copy_failed e w')
  then show ?thesis using assms(5) by simp
next
  case (loop_failed e w1 w2)
  then show ?thesis using assms(5) by simp
next
  case (returns u w1 w2)
  note s = merge_start[OF assms(1,2,3,4) returns(1)]
  note l = merge_loop_quiet[OF s(1,2,3) assms(4) s(4), of "order w other"]
  have q: "quiet h w1 w2" using l returns(2) by (simp add: outcome_def)
  have p2: "pointee w2 h = fold (\<lambda>k s. ins k (the (lookup w other k)) s) (order w other)
      (clone (v_default w) (pointee w h))"
    using l returns(2) by (simp add: s(7,8))
  have "pointee (upd (data w2 h) (set_flag False) w2) h = set_flag False (pointee w2 h)"
    using quiet_facts(1,2)[OF q] s(2) by (simp add: pointee_upd_self)
  then show ?thesis using returns(3) assms(5) p2 by simp
qed

lemma merge_outcome:
  assumes "handles_ok w" "live w h" "live w other"
  shows "frame h w (outcome (merge_iom h other w))"
    and "world_inv w \<Longrightarrow> world_inv (outcome (merge_iom h other w))"
    and "merge_iom h other w = Inl (e, w') \<Longrightarrow> pointee w' h = pointee w h"
proof -
  have "frame h w (outcome (merge_iom h other w)) \<and>
      (world_inv w \<longrightarrow> world_inv (outcome (merge_iom h other w))) \<and>
      (\<forall>e w'. merge_iom h other w = Inl (e, w') \<longrightarrow> pointee w' h = pointee w h)"
  proof (cases "other = h")
    case True
    then show ?thesis using assms(1) by (simp add: merge_iom_def outcome_def frame_refl)
  next
    case False
    from assms False show ?thesis
    proof (cases rule: merge_cases)
      case (copy_failed e w')
      then show ?thesis
        using frame_store_eq[OF assms(1)] store_eq_world_inv store_eq_pointee
        by (auto simp: outcome_def)
    next
      case (loop_failed e w1 w2)
      note s = merge_start[OF assms False loop_failed(1)]
      note l = merge_loop_quiet[OF s(1,2,3) False s(4), of "order w other"]
      have q: "quiet h w1 w2" using l loop_failed(2) by (simp add: outcome_def)
      have bk: "data w h < length (heap w)" using assms(1,2) by (rule data_less)
      then have bk2: "data w h < length (heap w2)"
        using quiet_facts(7)[OF q] s(10) by simp
      have ok2: "handles_ok w2" "live w2 h" using quiet_facts(1,2)[OF q] s(2) by simp_all
      note sd = frame_set_data[OF ok2 bk2]
      have "frame h w1 w2" using q by (simp add: quiet_def)
      then have 1: "frame h w (set_data h (data w h) w2)"
        using s(5) sd(1) by (blast intro: frame_trans)
      have 2: "world_inv (set_data h (data w h) w2)" if "world_inv w"
        using q s(6)[OF that] sd(2) by (simp add: quiet_def)
      have "heap w2 ! data w h = heap w1 ! data w h"
        using quiet_facts(6)[OF q, of "data w h"] bk s(9,10) by simp
      then have 3: "pointee (set_data h (data w h) w2) h = pointee w h"
        using sd(3) s(11)[OF bk] by (simp add: pointee_def)
      show ?thesis using 1 2 3 loop_failed(3) by (simp add: outcome_def)
    next
      case (returns u w1 w2)
      note s = merge_start[OF assms False returns(1)]
      note l = merge_loop_quiet[OF s(1,2,3) False s(4), of "order w other"]
      have q: "quiet h w1 w2" using l returns(2) by (simp add: outcome_def)
      have ok2: "handles_ok w2" "live w2 h" "\<not> 1 < use_count w2 (data w2 h)"
        using quiet_facts(1,2,3,4)[OF q] s(2,4) by simp_all
      have "quiet h w2 (upd (data w2 h) (set_flag False) w2)"
        using ok2 by (rule quiet_upd_own) (simp add: struct_inv_set_flag)
      then have q2: "quiet h w1 (upd (data w2 h) (set_flag False) w2)"
        using q by (blast intro: quiet_trans)
      then have "frame h w (upd (data w2 h) (set_flag False) w2)"
        using s(5) by (auto simp: quiet_def intro: frame_trans)
      moreover have "world_inv (upd (data w2 h) (set_flag False) w2)" if "world_inv w"
        using q2 s(6)[OF that] by (simp add: quiet_def)
      ultimately show ?thesis using returns(3) by (simp add: outcome_def)
    qed
  qed
  then show "frame h w (outcome (merge_iom h other w))"
    and "world_inv w \<Longrightarrow> world_inv (outcome (merge_iom h other w))"
    and "merge_iom h other w = Inl (e, w') \<Longrightarrow> pointee w' h = pointee w h"
    by simp_all
qed

lemma merge_no_faults:
  assumes "world_inv w" "live w h" "live w other" "faults w = []"
  shows "\<exists>w'. merge_iom h other w = Inr ((), w')"
proof (cases "other = h")
  case True
  then show ?thesis by (simp add: merge_iom_def)
next
  case False
  have ok: "handles_ok w" using assms(1) by (simp add: world_inv_def)
  let ?w1 = "cloned h w"
  have c: "copy h w = Inr ((), ?w1)"
    using assms(4) by (simp add: copy_def may_throw_no_faults cloned_def)
  note s = merge_start[OF ok assms(2,3) False store_eq_refl]
  have f1: "faults ?w1 = []" using assms(4) by (simp add: cloned_def set_data_def)
  have "\<forall>k\<in>set (order w other). lookup w other k \<noteq> None"
    using order_lookup[OF assms(1,3)] by simp
  then have "\<forall>k\<in>set (order w other). lookup ?w1 other k \<noteq> None" by (simp add: s(8))
  then obtain w2 where l: "merge_loop h other (order w other) ?w1 = Inr ((), w2)"
    using merge_loop_no_faults[OF s(1,2,3) False s(4) f1] by blast
  have "pointee ?w1 other = pointee w other" using ok assms(3) False by (rule pointee_cloned_other)
  then have "map snd (insertions (heap ?w1 ! data ?w1 other)) = order w other"
    by (simp add: order_def pointee_def)
  then show ?thesis using c l False by (simp add: merge_iom_def Let_def)
qed

subsection \<open>Merging is inserting\<close>

lemma view_pointee: "view (pointee w h) = (order w h, lookup w h)"
  by (simp add: view_def order_def lookup_def fun_eq_iff)

lemma view_ins: "struct_inv s \<Longrightarrow> view (ins k v s) = ins_view k v (view s)"
  by (auto simp: view_def ins_view_def keys_ins values_ins fun_eq_iff split: option.splits)

lemma view_clone: "struct_inv s \<Longrightarrow> view (clone dv s) = view s"
  by (simp add: view_def keys_clone values_clone)

lemma view_set_flag: "view (set_flag b s) = view s"
  by (simp add: view_def set_flag_def)

lemma view_fold_ins:
  "struct_inv s \<Longrightarrow>
   view (fold (\<lambda>k s. ins k (f k) s) ks s) = fold (\<lambda>k. ins_view k (f k)) ks (view s)"
proof (induction ks arbitrary: s)
  case Nil
  then show ?case by simp
next
  case (Cons k ks)
  have "struct_inv (ins k (f k) s)" using Cons.prems by (rule struct_inv_ins)
  then show ?case using Cons.IH[of "ins k (f k) s"] Cons.prems by (simp add: view_ins)
qed

lemma insert_all_view:
  assumes "world_inv w" "live w h" "insert_all h kvs w = Inr (bs, w')"
  shows "(order w' h, lookup w' h) = fold (\<lambda>kv. ins_view (fst kv) (snd kv)) kvs (order w h, lookup w h)"
  using assms
proof (induction kvs arbitrary: w bs)
  case Nil
  then show ?case by simp
next
  case (Cons kv kvs)
  obtain k v where kv: "kv = (k, v)" by (cases kv)
  from Cons.prems(3) obtain b w1 bs' where
    step: "insert_iom h k v w = Inr (b, w1)" and rest: "insert_all h kvs w1 = Inr (bs', w')"
    by (auto simp: kv split: sum.splits prod.splits)
  have inv1: "world_inv w1" and live1: "live w1 h"
    using insert_iom_inv[OF Cons.prems(1,2) step] Cons.prems(2) by simp_all
  note v1 = insert_iom_view[OF Cons.prems(1,2) step]
  have "lookup w1 h = (lookup w h)(k := (case lookup w h k of None \<Rightarrow> Some v | Some x \<Rightarrow> Some x))"
    using v1(3) v1(4) by (auto simp: fun_eq_iff)
  then have "(order w1 h, lookup w1 h) = ins_view k v (order w h, lookup w h)"
    using v1(2) by (simp add: ins_view_def)
  then show ?case using Cons.IH[OF inv1 live1 rest] by (simp add: kv)
qed

text \<open>Inserting distinct keys one after the other: the keys inserted come last, in the order
  of insertion, and a key keeps the value it had.\<close>

lemma fold_ins_view:
  "distinct ks \<Longrightarrow>
   fold (\<lambda>k. ins_view k (f k)) ks (ord, l) =
     (filter (\<lambda>x. x \<notin> set ks) ord @ ks,
      \<lambda>k. case l k of Some v \<Rightarrow> Some v | None \<Rightarrow> if k \<in> set ks then Some (f k) else None)"
proof (induction ks arbitrary: ord l)
  case Nil
  then show ?case by (auto simp: fun_eq_iff split: option.splits)
next
  case (Cons k ks)
  let ?o = "filter (\<lambda>x. x \<noteq> k) ord @ [k]"
  let ?l = "l(k := (case l k of None \<Rightarrow> Some (f k) | Some x \<Rightarrow> Some x))"
  have d: "distinct ks" "k \<notin> set ks" using Cons.prems by simp_all
  have "fold (\<lambda>k. ins_view k (f k)) (k # ks) (ord, l) = fold (\<lambda>k. ins_view k (f k)) ks (?o, ?l)"
    by (simp add: ins_view_def)
  also have "\<dots> = (filter (\<lambda>x. x \<notin> set ks) ?o @ ks,
      \<lambda>k'. case ?l k' of Some v \<Rightarrow> Some v | None \<Rightarrow> if k' \<in> set ks then Some (f k') else None)"
    using d(1) by (rule Cons.IH)
  also have "filter (\<lambda>x. x \<notin> set ks) ?o @ ks = filter (\<lambda>x. x \<notin> set (k # ks)) ord @ k # ks"
    using d(2) by (simp add: conj_commute)
  also have "(\<lambda>k'. case ?l k' of Some v \<Rightarrow> Some v
        | None \<Rightarrow> if k' \<in> set ks then Some (f k') else None) =
      (\<lambda>k'. case l k' of Some v \<Rightarrow> Some v
        | None \<Rightarrow> if k' \<in> set (k # ks) then Some (f k') else None)"
    by (auto simp: fun_eq_iff split: option.splits)
  finally show ?case .
qed

lemma x_and_xy_inv: "world_inv x_and_xy"
  by (auto simp: x_and_xy_def world_inv_def handles_ok_def struct_inv_def)

lemma x_and_xy_live: "live x_and_xy 0" "live x_and_xy 1"
  by (simp_all add: x_and_xy_def live_def)

lemma x_and_xy_view:
  "order x_and_xy 0 = [''x'']" "lookup x_and_xy 0 ''x'' = Some 1"
  "lookup x_and_xy 0 ''y'' = None"
  "order x_and_xy 1 = [''x'', ''y'']" "lookup x_and_xy 1 ''x'' = Some 2"
  "lookup x_and_xy 1 ''y'' = Some 3" "faults x_and_xy = []"
  by (simp_all add: x_and_xy_def order_def lookup_def pointee_def data_def)

text \<open>
  C7. \<open>merge\<close> of a container with itself returns the world it was called in. \<open>merge(other)\<close>
  with another container returns when nothing throws, and whenever it returns the
  container shows what it shows after \<open>insert(k, v)\<close> for every key \<open>k\<close> of \<open>other\<close>, in the
  iteration order of \<open>other\<close>, with the value \<open>v\<close> that \<open>other\<close> has for \<open>k\<close>: the keys of
  \<open>other\<close> come last, in the order of \<open>other\<close>, after the remaining keys of the container;
  every key the container had keeps its value, and every other key of \<open>other\<close> has the value
  of \<open>other\<close>.
\<close>

theorem merge_is_inserting:
  assumes "world_inv w" "live w h" "live w other"
  shows "merge_iom h h w = Inr ((), w) \<and>
    (other \<noteq> h \<longrightarrow>
      (faults w = [] \<longrightarrow> (\<exists>w'. merge_iom h other w = Inr ((), w'))) \<and>
      (\<forall>u w'. merge_iom h other w = Inr (u, w') \<longrightarrow>
         (\<forall>bs w''. insert_all h (map (\<lambda>k. (k, the (lookup w other k))) (order w other)) w
               = Inr (bs, w'') \<longrightarrow>
            order w' h = order w'' h \<and> lookup w' h = lookup w'' h) \<and>
         order w' h = filter (\<lambda>k. k \<notin> set (order w other)) (order w h) @ order w other \<and>
         (\<forall>k. lookup w' h k =
            (case lookup w h k of Some v \<Rightarrow> Some v | None \<Rightarrow> lookup w other k))))"
proof (intro conjI impI allI)
  show "merge_iom h h w = Inr ((), w)" by (simp add: merge_iom_def)
next
  assume "other \<noteq> h" "faults w = []"
  then show "\<exists>w'. merge_iom h other w = Inr ((), w')"
    using merge_no_faults[OF assms] by simp
next
  fix u w'
  assume ne: "other \<noteq> h" and res: "merge_iom h other w = Inr (u, w')"
  have ok: "handles_ok w" using assms(1) by (simp add: world_inv_def)
  let ?f = "\<lambda>k. the (lookup w other k)"
  let ?ks = "order w other"
  have inv: "struct_inv (pointee w h)" using assms(1,2) by (rule world_inv_pointee)
  have "view (pointee w' h) = view (fold (\<lambda>k s. ins k (?f k) s) ?ks
      (clone (v_default w) (pointee w h)))"
    by (simp add: merge_returns[OF ok assms(2,3) ne res] view_set_flag)
  also have "\<dots> = fold (\<lambda>k. ins_view k (?f k)) ?ks (view (clone (v_default w) (pointee w h)))"
    using inv by (simp add: view_fold_ins struct_inv_clone)
  finally have v: "(order w' h, lookup w' h) = fold (\<lambda>k. ins_view k (?f k)) ?ks (order w h, lookup w h)"
    using inv by (simp add: view_clone view_pointee)
  have d: "distinct ?ks"
    using world_inv_pointee[OF assms(1,3)] by (simp add: struct_inv_def order_def)
  note closed = v[unfolded fold_ins_view[OF d]]
  show "order w' h = filter (\<lambda>k. k \<notin> set ?ks) (order w h) @ ?ks" using closed by simp
  show "lookup w' h k = (case lookup w h k of Some v \<Rightarrow> Some v | None \<Rightarrow> lookup w other k)" for k
  proof -
    have "lookup w' h k =
        (case lookup w h k of Some v \<Rightarrow> Some v | None \<Rightarrow> if k \<in> set ?ks then Some (?f k) else None)"
      using closed by simp
    moreover have "(if k \<in> set ?ks then Some (?f k) else None) = lookup w other k"
      using order_lookup[OF assms(1,3), of k] by auto
    ultimately show ?thesis by (simp only:)
  qed
  show "order w' h = order w'' h" and "lookup w' h = lookup w'' h"
    if "insert_all h (map (\<lambda>k. (k, ?f k)) ?ks) w = Inr (bs, w'')" for bs w''
  proof -
    have "(order w'' h, lookup w'' h) =
        fold (\<lambda>kv. ins_view (fst kv) (snd kv)) (map (\<lambda>k. (k, ?f k)) ?ks) (order w h, lookup w h)"
      using assms(1,2) that by (rule insert_all_view)
    also have "\<dots> = fold (\<lambda>k. ins_view k (?f k)) ?ks (order w h, lookup w h)"
      by (simp add: fold_map comp_def)
    finally have "(order w'' h, lookup w'' h) = (order w' h, lookup w' h)" using v by simp
    then show "order w' h = order w'' h" and "lookup w' h = lookup w'' h" by simp_all
  qed
qed

theorem merge_is_inserting_witness:
  "world_inv x_and_xy \<and> live x_and_xy 0 \<and> live x_and_xy 1 \<and>
   order x_and_xy 0 = [''x''] \<and> lookup x_and_xy 0 ''x'' = Some 1 \<and>
   order x_and_xy 1 = [''x'', ''y''] \<and> lookup x_and_xy 1 ''x'' = Some 2 \<and>
   lookup x_and_xy 1 ''y'' = Some 3 \<and>
   merge_iom 0 0 x_and_xy = Inr ((), x_and_xy) \<and>
   (\<exists>w'. merge_iom 0 1 x_and_xy = Inr ((), w') \<and> order w' 0 = [''x'', ''y''] \<and>
      lookup w' 0 ''x'' = Some 1 \<and> lookup w' 0 ''y'' = Some 3)"
proof -
  note m = merge_is_inserting[OF x_and_xy_inv x_and_xy_live(1) x_and_xy_live(2)]
  obtain w' where r: "merge_iom 0 1 x_and_xy = Inr ((), w')"
    using m x_and_xy_view(7) by auto
  have "order w' 0 = [''x'', ''y''] \<and> lookup w' 0 ''x'' = Some 1 \<and> lookup w' 0 ''y'' = Some 3"
    using m r x_and_xy_view by (simp del: One_nat_def)
  then have "\<exists>w'. merge_iom 0 1 x_and_xy = Inr ((), w') \<and> order w' 0 = [''x'', ''y''] \<and>
      lookup w' 0 ''x'' = Some 1 \<and> lookup w' 0 ''y'' = Some 3"
    using r by blast
  then show ?thesis
    using m x_and_xy_inv x_and_xy_live x_and_xy_view by simp
qed

section \<open>Constructors, assignment and destructor\<close>

lemma handles_okI:
  "(\<And>a. Some a \<in> set (handles w) \<Longrightarrow> a < length (heap w)) \<Longrightarrow> handles_ok w"
  by (auto simp: handles_ok_def split: option.splits)

lemma handles_okD: "handles_ok w \<Longrightarrow> Some a \<in> set (handles w) \<Longrightarrow> a < length (heap w)"
  by (force simp: handles_ok_def)

lemma in_set_update: "y \<in> set (xs[i := x]) \<Longrightarrow> y = x \<or> y \<in> set xs"
  using set_update_subset_insert[of xs i x] by auto

lemma world_inv_destroy: "world_inv w \<Longrightarrow> world_inv (destroy h w)"
proof -
  assume inv: "world_inv w"
  have "handles_ok (destroy h w)"
  proof (rule handles_okI)
    fix a
    assume "Some a \<in> set (handles (destroy h w))"
    then have "Some a \<in> set (handles w)" by (auto simp: destroy_def dest: in_set_update)
    then show "a < length (heap (destroy h w))"
      using inv by (auto simp: world_inv_def destroy_def dest: handles_okD)
  qed
  then show ?thesis using inv by (simp add: world_inv_def) (simp add: destroy_def)
qed

text \<open>A new container object pointing to the address \<open>a\<close>.\<close>

lemma world_inv_new_handle:
  assumes "world_inv w" "a < length (heap w)"
  shows "world_inv (w\<lparr>handles := handles w @ [Some a]\<rparr>)"
proof -
  have "handles_ok (w\<lparr>handles := handles w @ [Some a]\<rparr>)"
    using assms by (auto intro!: handles_okI simp: world_inv_def dest: handles_okD)
  then show ?thesis using assms(1) by (simp add: world_inv_def)
qed

lemma live_new_handle:
  "live (w\<lparr>handles := handles w @ [Some a]\<rparr>) b = (live w b \<or> b = length (handles w))"
  by (auto simp: live_def nth_append)

lemma construct_inv: "world_inv w \<Longrightarrow> world_inv (outcome (construct w))"
proof (cases "construct w" rule: sum_cases)
  case (Inl e w')
  assume "world_inv w"
  moreover have "store_eq w w'"
    using Inl by (auto simp: construct_def may_throw_def store_eq_def Let_def split: if_splits)
  ultimately show ?thesis using Inl by (simp add: outcome_def store_eq_world_inv)
next
  case (Inr h w')
  assume "world_inv w"
  then show ?thesis using construct_Inr[OF _ Inr] Inr by (simp add: outcome_def)
qed

text \<open>The copy constructor: the new container shares the pointee of \<open>other\<close> when the flag of
  that pointee is clear, and gets a clone of it when the flag is set.\<close>

lemma copy_construct_Inr:
  assumes "world_inv w" "live w other" "copy_construct other w = Inr (h, w')"
  shows "h = length (handles w)" and "world_inv w'"
    and "live w' b = (live w b \<or> b = h)"
    and "live w b \<Longrightarrow> data w' b = data w b \<and> pointee w' b = pointee w b"
    and "\<not> non_const_refs_given (pointee w other) \<Longrightarrow> data w' h = data w other"
    and "non_const_refs_given (pointee w other) \<Longrightarrow>
           pointee w' h = clone (v_default w) (pointee w other)"
    and "order w' h = order w other" and "lookup w' h = lookup w other"
proof -
  let ?w1 = "w\<lparr>handles := handles w @ [Some (data w other)]\<rparr>"
  let ?h = "length (handles w)"
  have ok: "handles_ok w" using assms(1) by (simp add: world_inv_def)
  have a: "data w other < length (heap w)" using ok assms(2) by (rule data_less)
  have inv1: "world_inv ?w1" using assms(1) a by (rule world_inv_new_handle)
  have ok1: "handles_ok ?w1" using inv1 by (simp add: world_inv_def)
  have live1: "live ?w1 b = (live w b \<or> b = ?h)" for b by (rule live_new_handle)
  have d1: "data ?w1 ?h = data w other" by (simp add: data_def)
  have old1: "data ?w1 b = data w b \<and> pointee ?w1 b = pointee w b" if "live w b" for b
    using that by (simp add: data_def pointee_def live_def nth_append)
  have p1: "pointee ?w1 ?h = pointee w other" by (simp add: pointee_def d1)
  from assms(3) have h: "h = ?h"
    by (auto simp: copy_construct_def Let_def split: if_splits sum.splits prod.splits)
  show "h = length (handles w)" by (rule h)
  have inv_s: "struct_inv (pointee w other)" using assms(1,2) by (rule world_inv_pointee)
  have all: "world_inv w' \<and> (\<forall>b. live w' b = (live w b \<or> b = h)) \<and>
      (\<forall>b. live w b \<longrightarrow> data w' b = data w b \<and> pointee w' b = pointee w b) \<and>
      (\<not> non_const_refs_given (pointee w other) \<longrightarrow> data w' h = data w other) \<and>
      (non_const_refs_given (pointee w other) \<longrightarrow>
         pointee w' h = clone (v_default w) (pointee w other)) \<and>
      view (pointee w' h) = view (pointee w other)"
  proof (cases "non_const_refs_given (pointee w other)")
    case False
    then have "w' = ?w1"
      using assms(3) by (simp add: copy_construct_def Let_def pointee_def d1)
    then show ?thesis using inv1 live1 old1 d1 p1 False h by simp
  next
    case True
    then obtain u where c: "copy ?h ?w1 = Inr (u, w')"
      using assms(3)
      by (auto simp: copy_construct_def Let_def pointee_def d1 split: sum.splits prod.splits)
    have eq: "store_eq (cloned ?h ?w1) w'" using c by (rule copy_Inr)
    have lh: "live ?w1 ?h" using live1 by simp
    have "world_inv w'"
      using world_inv_cloned[OF inv1 lh] by (simp add: store_eq_world_inv[OF eq])
    moreover have "live w' b = (live w b \<or> b = h)" for b
      using live1 by (simp add: store_eq_live[OF eq] live_cloned[OF lh] h)
    moreover have "data w' b = data w b \<and> pointee w' b = pointee w b" if "live w b" for b
    proof -
      have "b \<noteq> ?h" using that by (auto simp: live_def)
      moreover have "live ?w1 b" using that live1 by simp
      ultimately show ?thesis
        using old1[OF that] pointee_cloned_other[OF ok1, of b ?h]
        by (simp add: store_eq_data[OF eq] store_eq_pointee[OF eq] data_cloned_other)
    qed
    moreover have ph: "pointee w' h = clone (v_default w) (pointee w other)"
      using pointee_cloned_self[OF lh] p1 by (simp add: store_eq_pointee[OF eq] h)
    moreover have "view (pointee w' h) = view (pointee w other)"
      using inv_s by (simp add: ph view_clone)
    ultimately show ?thesis using True by simp
  qed
  then show "world_inv w'" and "live w' b = (live w b \<or> b = h)"
    and "live w b \<Longrightarrow> data w' b = data w b \<and> pointee w' b = pointee w b"
    and "\<not> non_const_refs_given (pointee w other) \<Longrightarrow> data w' h = data w other"
    and "non_const_refs_given (pointee w other) \<Longrightarrow>
           pointee w' h = clone (v_default w) (pointee w other)"
    by simp_all
  from all have "view (pointee w' h) = view (pointee w other)" by simp
  then show "order w' h = order w other" and "lookup w' h = lookup w other"
    by (simp_all add: view_pointee)
qed

lemma copy_construct_Inl:
  assumes "world_inv w" "live w other" "copy_construct other w = Inl (e, w')"
  shows "world_inv w'" and "live w' b = live w b"
    and "live w b \<Longrightarrow> data w' b = data w b \<and> pointee w' b = pointee w b"
proof -
  let ?w1 = "w\<lparr>handles := handles w @ [Some (data w other)]\<rparr>"
  let ?h = "length (handles w)"
  from assms(3) obtain w2 where c: "copy ?h ?w1 = Inl (e, w2)" and w': "w' = destroy ?h w2"
    by (auto simp: copy_construct_def Let_def split: if_splits sum.splits prod.splits)
  have eq: "store_eq ?w1 w2" using c by (rule copy_Inl)
  then have hs: "handles w' = handles w @ [None]" and hp: "heap w' = heap w"
    by (simp_all add: w' destroy_def store_eq_def)
  have "handles_ok w'"
    using assms(1) by (auto intro!: handles_okI simp: hs hp world_inv_def dest: handles_okD)
  then show "world_inv w'" using assms(1) by (simp add: world_inv_def hp)
  show "live w' b = live w b" by (auto simp: live_def hs nth_append)
  show "data w' b = data w b \<and> pointee w' b = pointee w b" if "live w b"
    using that by (simp add: data_def pointee_def live_def hs hp nth_append)
qed

lemma copy_construct_inv:
  assumes "world_inv w" "live w other"
  shows "world_inv (outcome (copy_construct other w))"
proof (cases "copy_construct other w" rule: sum_cases)
  case (Inl e w')
  then show ?thesis using copy_construct_Inl(1)[OF assms Inl] by (simp add: outcome_def)
next
  case (Inr h w')
  then show ?thesis using copy_construct_Inr(2)[OF assms Inr] by (simp add: outcome_def)
qed

lemma move_construct_inv:
  assumes "world_inv w" "live w other"
  shows "world_inv (outcome (move_construct other w))"
proof -
  let ?w1 = "w\<lparr>handles := handles w @ [Some (data w other)]\<rparr>"
  have ok: "handles_ok w" using assms(1) by (simp add: world_inv_def)
  have a: "data w other < length (heap w)" using ok assms(2) by (rule data_less)
  have inv1: "world_inv ?w1" using assms(1) a by (rule world_inv_new_handle)
  show ?thesis
  proof (cases "may_throw ?w1" rule: sum_cases)
    case (Inl e w2)
    have "world_inv w2" using inv1 may_throw_Inl[OF Inl] store_eq_world_inv by blast
    then have "world_inv (destroy (length (handles w)) w2)" by (rule world_inv_destroy)
    then show ?thesis using Inl by (simp add: move_construct_def Let_def outcome_def)
  next
    case (Inr u w2)
    have inv2: "world_inv w2" using inv1 may_throw_Inr[OF Inr] store_eq_world_inv by blast
    let ?w3 = "w2\<lparr>heap := heap w2 @ [new_structure]\<rparr>"
    have "handles_ok ?w3"
      using inv2 by (auto intro!: handles_okI simp: world_inv_def dest: handles_okD)
    then have inv3: "world_inv ?w3"
      using inv2 by (auto simp: world_inv_def struct_inv_new)
    have l3: "live ?w3 other"
      using assms(2) may_throw_Inr[OF Inr]
      by (auto simp: live_def store_eq_def nth_append)
    have "handles_ok ?w3" using inv3 by (simp add: world_inv_def)
    then have "world_inv (set_data other (length (heap w2)) ?w3)"
      using frame_set_data(2)[OF _ l3 _ inv3, of "length (heap w2)"] by simp
    then show ?thesis using Inr by (simp add: move_construct_def Let_def outcome_def)
  qed
qed

text \<open>Assignment: the container points to the pointee of the parameter, which is the
  pointee of \<open>src\<close> or a clone of it.\<close>

lemma assign_Inr:
  assumes "world_inv w" "live w h" "live w src" "assign h src w = Inr (u, w')"
  shows "world_inv w'" and "live w' b = live w b"
    and "order w' h = order w src" and "lookup w' h = lookup w src"
    and "b \<noteq> h \<Longrightarrow> live w b \<Longrightarrow> data w' b = data w b \<and> pointee w' b = pointee w b"
proof -
  from assms(4) obtain t w1 where cc: "copy_construct src w = Inr (t, w1)"
    by (auto simp: assign_def split: sum.splits prod.splits)
  note c = copy_construct_Inr[OF assms(1,3) cc]
  have flag: "\<not> non_const_refs_given (pointee w1 t)"
  proof (cases "non_const_refs_given (pointee w src)")
    case True
    then show ?thesis using c(6) by (simp add: flag_clone)
  next
    case False
    have "pointee w1 t = heap w1 ! data w src" using c(5)[OF False] by (simp add: pointee_def)
    also have "\<dots> = pointee w1 src" using c(4)[OF assms(3)] by (simp add: pointee_def)
    finally show ?thesis using c(4)[OF assms(3)] False by simp
  qed
  have w': "w' = destroy t (set_data h (data w1 t) w1)"
    using assms(4) cc flag by (simp add: assign_def pointee_def)
  have ok1: "handles_ok w1" using c(2) by (simp add: world_inv_def)
  have lt: "live w1 t" and lh: "live w1 h" using c(3) assms(2) by simp_all
  have t: "t = length (handles w)" by (rule c(1))
  have th: "t \<noteq> h" using assms(2) t by (auto simp: live_def)
  have a: "data w1 t < length (heap w1)" using ok1 lt by (rule data_less)
  note sd = frame_set_data[OF ok1 lh a]
  have "world_inv (set_data h (data w1 t) w1)" using c(2) by (rule sd(2))
  then show "world_inv w'" unfolding w' by (rule world_inv_destroy)
  have len: "length (handles w1) = Suc (length (handles w))"
    using cc
    by (auto simp: copy_construct_def copy_def may_throw_def set_data_def destroy_def Let_def
        split: if_splits sum.splits prod.splits)
  show "live w' b = live w b"
    using c(3)[of b] th t len lh
    by (auto simp: w' live_def destroy_def set_data_def nth_list_update)
  have ph: "pointee w' h = pointee w1 t"
    using th lh sd(3) by (simp add: w' pointee_def data_def destroy_def set_data_def live_def)
  then have "view (pointee w' h) = (order w src, lookup w src)"
    using c(7,8) by (simp add: view_pointee)
  then show "order w' h = order w src" and "lookup w' h = lookup w src"
    by (simp_all add: view_pointee)
  show "data w' b = data w b \<and> pointee w' b = pointee w b" if "b \<noteq> h" "live w b"
  proof -
    have "b \<noteq> t" using that(2) t by (auto simp: live_def)
    then have "data w' b = data w1 b" "pointee w' b = pointee w1 b"
      using that(1) by (simp_all add: w' pointee_def data_def destroy_def set_data_def)
    then show ?thesis using c(4)[OF that(2)] by simp
  qed
qed

lemma assign_inv:
  assumes "world_inv w" "live w h" "live w src"
  shows "world_inv (outcome (assign h src w))"
proof (cases "assign h src w" rule: sum_cases)
  case (Inr u w')
  then show ?thesis using assign_Inr(1)[OF assms Inr] by (simp add: outcome_def)
next
  case (Inl e w')
  show ?thesis
  proof (cases "copy_construct src w" rule: sum_cases)
    case cc: (Inl e1 w1)
    then have "w' = w1" using Inl by (simp add: assign_def)
    then show ?thesis using copy_construct_Inl(1)[OF assms(1,3) cc] Inl by (simp add: outcome_def)
  next
    case cc: (Inr t w1)
    note c = copy_construct_Inr[OF assms(1,3) cc]
    from Inl cc obtain w2 where m: "may_throw w1 = Inl (e, w2)" and w': "w' = destroy t w2"
      by (auto simp: assign_def split: if_splits sum.splits prod.splits)
    have "world_inv w2" using c(2) may_throw_Inl[OF m] store_eq_world_inv by blast
    then show ?thesis using Inl w' by (simp add: outcome_def world_inv_destroy)
  qed
qed

section \<open>Every reachable world satisfies the invariant\<close>

lemma insert_iom_outcome_inv:
  assumes "world_inv w" "live w h"
  shows "world_inv (outcome (insert_iom h k v w))"
proof (cases "insert_iom h k v w" rule: sum_cases)
  case (Inl e w')
  have ok: "handles_ok w" using assms(1) by (simp add: world_inv_def)
  have "rolled_back h w w'" using insert_iom_Inl[OF ok assms(2) Inl] by simp
  then show ?thesis using world_inv_rolled_back[OF assms] Inl by (simp add: outcome_def)
next
  case (Inr b w')
  then show ?thesis using insert_iom_inv(1)[OF assms Inr] by (simp add: outcome_def)
qed

lemma erase_outcome_inv:
  assumes "world_inv w" "live w h"
  shows "world_inv (outcome (erase h k w))"
proof (cases "erase h k w" rule: sum_cases)
  case (Inl e w')
  have ok: "handles_ok w" using assms(1) by (simp add: world_inv_def)
  have "rolled_back h w w'" using erase_Inl[OF ok assms(2) Inl] by simp
  then show ?thesis using world_inv_rolled_back[OF assms] Inl by (simp add: outcome_def)
next
  case (Inr u w')
  have ok: "handles_ok w" using assms(1) by (simp add: world_inv_def)
  have eff: "store_eq (apply_op h (del k) w) w'" using erase_Inr[OF ok assms(2) Inr] by simp
  have "world_inv (apply_op h (del k) w)"
    using assms struct_inv_del by (rule world_inv_apply_op)
  then show ?thesis using Inr store_eq_world_inv[OF eff] by (simp add: outcome_def)
qed

lemma clear_outcome_inv:
  assumes "world_inv w" "live w h"
  shows "world_inv (outcome (clear h w))"
proof (cases "clear h w" rule: sum_cases)
  case (Inl e w')
  then show ?thesis
    using clear_Inl[OF Inl] assms(1) store_eq_world_inv[of w w'] by (simp add: outcome_def)
next
  case (Inr u w')
  have ok: "handles_ok w" using assms(1) by (simp add: world_inv_def)
  have eff: "store_eq (apply_op h clr w) w'" using clear_Inr[OF ok assms(2) Inr] by simp
  have "world_inv (apply_op h clr w)"
    using assms by (rule world_inv_apply_op) (rule struct_inv_clr)
  then show ?thesis using Inr store_eq_world_inv[OF eff] by (simp add: outcome_def)
qed

lemma at_outcome_inv:
  assumes "world_inv w" "live w h"
  shows "world_inv (outcome (at h k w))"
proof (cases "at h k w" rule: sum_cases)
  case (Inl e w')
  have ok: "handles_ok w" using assms(1) by (simp add: world_inv_def)
  have "world_inv (upd (data w h) (set_flag False) w)"
    using assms(1) by (rule world_inv_upd) (simp add: struct_inv_set_flag)
  then have "world_inv w'"
    using at_Inl[OF ok assms(2) Inl] world_inv_rolled_back[OF assms]
    by (auto dest: store_eq_world_inv)
  then show ?thesis using Inl by (simp add: outcome_def)
next
  case (Inr r w')
  have ok: "handles_ok w" using assms(1) by (simp add: world_inv_def)
  show ?thesis using at_good(7)[OF ok assms(2) Inr assms(1)] Inr by (simp add: outcome_def)
qed

lemma struct_inv_write:
  assumes "struct_inv s"
  shows "struct_inv (case mappings s k of None \<Rightarrow> s
           | Some e \<Rightarrow> s\<lparr>mappings := (mappings s)(k \<mapsto> e\<lparr>val := v\<rparr>)\<rparr>)"
proof (cases "mappings s k")
  case None
  then show ?thesis using assms by simp
next
  case (Some e)
  then have "k \<in> dom (mappings s)" by auto
  then have "insert k (dom (mappings s)) = dom (mappings s)" by auto
  then show ?thesis using assms Some by (auto simp: struct_inv_def)
qed

lemma ref_assign_inv:
  assumes "world_inv w"
  shows "world_inv (ref_assign r v w)"
  unfolding ref_assign_def using assms by (rule world_inv_upd) (rule struct_inv_write)

text \<open>\<open>world_inv\<close>, the hypothesis of the theorems about single calls, holds in every world a
  program can bring about; so do the hypotheses \<open>live w h\<close> for the containers the program
  may call an operation on.\<close>

lemma reachable_world_inv: "reachable w \<Longrightarrow> world_inv w"
proof (induction rule: reachable.induct)
  case (start fs dv)
  show ?case by (rule init_inv)
next
  case (schedule w fs)
  then show ?case using store_eq_world_inv[OF store_eq_faults[of w fs]] by simp
next
  case (construct w)
  then show ?case by (simp add: construct_inv)
next
  case (copy_construct w h)
  then show ?case by (simp add: copy_construct_inv)
next
  case (move_construct w h)
  then show ?case by (simp add: move_construct_inv)
next
  case (assign w h src)
  then show ?case by (simp add: assign_inv)
next
  case (destroy w h)
  then show ?case by (simp add: world_inv_destroy)
next
  case (insert w h k v)
  then show ?case by (simp add: insert_iom_outcome_inv)
next
  case (erase w h k)
  then show ?case by (simp add: erase_outcome_inv)
next
  case (merge w h other)
  then show ?case using merge_outcome(2)[of w h other] by (simp add: world_inv_def)
next
  case (at w h k)
  then show ?case by (simp add: at_outcome_inv)
next
  case (at_const w h k)
  then show ?case using store_eq_world_inv[OF at_const_outcome[of w h k]] by simp
next
  case (subscript w h k)
  then show ?case by (simp add: subscript_inv)
next
  case (clear w h)
  then show ?case by (simp add: clear_outcome_inv)
next
  case (contains w h k)
  then show ?case using store_eq_world_inv[OF contains_outcome[of w h k]] by simp
next
  case (size w h)
  then show ?case by (simp add: size_iom_def)
next
  case (empty w h)
  then show ?case by (simp add: empty_iom_def size_iom_def)
next
  case (dereference w it)
  then show ?case using store_eq_world_inv[OF dereference_outcome[of w it]] by simp
next
  case (ref_write w r v)
  then show ?case by (simp add: ref_assign_inv)
qed

lemma struct_inv_index_matches_order:
  assumes "struct_inv s"
  shows "index_matches_order s"
proof -
  have d1: "distinct (map fst (insertions s))" and d2: "distinct (map snd (insertions s))"
    and dm: "dom (mappings s) = set (map snd (insertions s))"
    using assms by (simp_all add: struct_inv_def)
  have "card (dom (mappings s)) = length (map snd (insertions s))"
    unfolding dm using d2 by (rule distinct_card)
  then have 1: "length (insertions s) = card (dom (mappings s))" by simp
  have 2: "\<forall>k e. mappings s k = Some e \<longrightarrow> (iter e, k) \<in> set (insertions s)"
    using inv_key_node[OF assms] by blast
  have 3: "inj_on (\<lambda>k. iter (the (mappings s k))) (dom (mappings s))"
  proof (rule inj_onI)
    fix k1 k2
    assume k1: "k1 \<in> dom (mappings s)" and k2: "k2 \<in> dom (mappings s)"
      and eq: "iter (the (mappings s k1)) = iter (the (mappings s k2))"
    from k1 k2 obtain e1 e2 where e: "mappings s k1 = Some e1" "mappings s k2 = Some e2" by auto
    have "(iter e1, k1) \<in> set (insertions s)" "(iter e1, k2) \<in> set (insertions s)"
      using inv_key_node[OF assms e(1)] inv_key_node[OF assms e(2)] eq e by simp_all
    with d1 show "k1 = k2" by (metis eq_key_imp_eq_value)
  qed
  show ?thesis using 1 2 3 by (simp add: index_matches_order_def)
qed

text \<open>
  C8. In every world reachable by the public operations, every pointee of the store (so
  the pointee of every live container) satisfies the invariant of the data model, and so
  does a clone of it; and the \<open>data\<close> pointer of every live container points into the store.
\<close>

theorem reachable_index_matches_order:
  assumes "reachable w"
  shows "(\<forall>s\<in>set (heap w). index_matches_order s \<and> index_matches_order (clone dv s)) \<and>
    (\<forall>h. live w h \<longrightarrow> data w h < length (heap w) \<and> index_matches_order (pointee w h))"
proof -
  have inv: "world_inv w" using assms by (rule reachable_world_inv)
  have "index_matches_order s \<and> index_matches_order (clone dv s)" if "s \<in> set (heap w)" for s
  proof -
    have "struct_inv s" using inv that by (simp add: world_inv_def)
    then show ?thesis by (simp add: struct_inv_index_matches_order struct_inv_clone)
  qed
  moreover have "data w h < length (heap w) \<and> index_matches_order (pointee w h)" if "live w h" for h
    using inv that world_inv_pointee[OF inv that] data_less[of w h]
    by (simp add: world_inv_def struct_inv_index_matches_order)
  ultimately show ?thesis by blast
qed

lemmas eval_defs =
  init_def outcome_def construct_def copy_construct_def insert_iom_def private_insert_def
  copy_on_write_def copy_def may_throw_def upd_def set_data_def destroy_def data_def
  use_count_def order_def lookup_def pointee_def live_def fresh_node_def erase_node_def
  clone_def new_structure_def Let_def

lemma copy_then_insert_view:
  "live copy_then_insert 0" "live copy_then_insert 1"
  "order copy_then_insert 0 = [''a'']" "order copy_then_insert 1 = [''a'', ''b'']"
  "lookup copy_then_insert 1 ''a'' = Some 1" "lookup copy_then_insert 1 ''b'' = Some 2"
  "data copy_then_insert 0 = 0" "data copy_then_insert 1 = 1"
  "length (heap copy_then_insert) = 2"
  by (simp_all add: copy_then_insert_def eval_defs)

lemma copy_then_insert_reachable: "reachable copy_then_insert"
proof -
  let ?w1 = "outcome (construct (init [] (0::int))) :: (string, int) world"
  let ?w2 = "outcome (insert_iom 0 ''a'' 1 ?w1)"
  let ?w3 = "outcome (copy_construct 0 ?w2)"
  have r1: "reachable ?w1" by (rule reachable.construct) (rule reachable.start)
  have "live ?w1 0" by (simp add: eval_defs)
  with r1 have r2: "reachable ?w2" by (rule reachable.insert)
  have "live ?w2 0" by (simp add: eval_defs)
  with r2 have r3: "reachable ?w3" by (rule reachable.copy_construct)
  have "live ?w3 1" by (simp add: eval_defs)
  with r3 have "reachable (outcome (insert_iom 1 ''b'' 2 ?w3))" by (rule reachable.insert)
  then show ?thesis by (simp only: copy_then_insert_def)
qed

theorem reachable_index_matches_order_witness:
  "reachable copy_then_insert \<and> live copy_then_insert 0 \<and> live copy_then_insert 1 \<and>
   order copy_then_insert 0 = [''a''] \<and> order copy_then_insert 1 = [''a'', ''b''] \<and>
   pointee copy_then_insert 0 \<in> set (heap copy_then_insert) \<and>
   index_matches_order (pointee copy_then_insert 0) \<and>
   index_matches_order (pointee copy_then_insert 1) \<and>
   index_matches_order (clone 0 (pointee copy_then_insert 1)) \<and>
   data copy_then_insert 1 < length (heap copy_then_insert)"
proof -
  note t = reachable_index_matches_order[OF copy_then_insert_reachable, of 0]
  have m: "pointee copy_then_insert 0 \<in> set (heap copy_then_insert)"
    "pointee copy_then_insert 1 \<in> set (heap copy_then_insert)"
    using copy_then_insert_view(7,8,9) by (simp_all add: pointee_def)
  show ?thesis
    using t m copy_then_insert_reachable copy_then_insert_view by simp
qed

section \<open>Copies are independent\<close>

lemma frame_same_view: "frame h w w' \<Longrightarrow> live w b \<Longrightarrow> b \<noteq> h \<Longrightarrow> same_view w w' b"
  by (simp add: frame_def same_view_pointee)

lemma same_view_trans: "same_view w w1 b \<Longrightarrow> same_view w1 w2 b \<Longrightarrow> same_view w w2 b"
  by (simp add: same_view_def)

text \<open>A write through the reference a call on \<open>h\<close> has returned, when \<open>h\<close> owns its pointee.\<close>

lemma ref_assign_other:
  assumes "live w h" "live w b" "b \<noteq> h" "\<not> 1 < use_count w (data w h)"
  shows "same_view w (ref_assign (data w h, k) v w) b"
proof -
  have "data w b \<noteq> data w h" using assms by (rule other_pointee)
  then have "pointee (ref_assign (data w h, k) v w) b = pointee w b"
    unfolding ref_assign_def fst_conv by (rule pointee_upd_other)
  then show ?thesis by (rule same_view_pointee)
qed

lemma calls_leave_others:
  assumes "world_inv w" "live w a" "live w b" "b \<noteq> a"
  shows "unchanged_by_calls_on w a b"
proof -
  have ok: "handles_ok w" using assms(1) by (simp add: world_inv_def)
  note fv = frame_same_view[OF _ assms(3,4)]
  have 1: "same_view w (outcome (insert_iom a k v w)) b" for k v
    using insert_iom_frame[OF ok assms(2)] by (rule fv)
  have 2: "same_view w (outcome (erase a k w)) b" for k
    using erase_frame[OF ok assms(2)] by (rule fv)
  have 3: "same_view w (outcome (subscript a k w)) b" for k
    using subscript_frame[OF ok assms(2)] by (rule fv)
  have 4: "same_view w (outcome (at a k w)) b" for k
    using at_frame[OF ok assms(2)] by (rule fv)
  have 5: "same_view w (outcome (merge_iom a c w)) b" if "live w c" for c
    using merge_outcome(1)[OF ok assms(2) that] by (rule fv)
  have 6: "same_view w (outcome (clear a w)) b"
    using clear_frame[OF ok assms(2)] by (rule fv)
  have 7: "same_view w (ref_assign r v w') b" if r: "at a k w = Inr (r, w')" for r w' k v
  proof -
    note g = at_good[OF ok assms(2) r]
    have v1: "same_view w w' b" using g(1) by (rule fv)
    have lb: "live w' b" using frame_live[OF g(1)] assms(3) by simp
    have "same_view w' (ref_assign (data w' a, k) v w') b"
      using g(3) lb assms(4) g(4) by (rule ref_assign_other)
    with v1 have "same_view w (ref_assign (data w' a, k) v w') b" by (rule same_view_trans)
    then show ?thesis by (simp only: g(6))
  qed
  have 8: "same_view w (ref_assign r v w') b" if r: "subscript a k w = Inr (r, w')" for r w' k v
  proof -
    note g = subscript_returns[OF assms(1,2) r]
    have f: "frame a w w'" using subscript_frame[OF ok assms(2), of k] r by (simp add: outcome_def)
    have v1: "same_view w w' b" using f by (rule fv)
    have lb: "live w' b" using frame_live[OF f] assms(3) by simp
    have "same_view w' (ref_assign (data w' a, k) v w') b"
      using g(5) lb assms(4) g(3) by (rule ref_assign_other)
    with v1 have "same_view w (ref_assign (data w' a, k) v w') b" by (rule same_view_trans)
    then show ?thesis by (simp only: g(2))
  qed
  show ?thesis
    unfolding unchanged_by_calls_on_def
  proof (intro allI conjI impI)
    fix k v c
    show "same_view w (outcome (insert_iom a k v w)) b" by (rule 1)
    show "same_view w (outcome (erase a k w)) b" by (rule 2)
    show "same_view w (outcome (subscript a k w)) b" by (rule 3)
    show "same_view w (outcome (at a k w)) b" by (rule 4)
    show "same_view w (outcome (clear a w)) b" by (rule 6)
    show "same_view w (outcome (merge_iom a c w)) b" if "live w c" using that by (rule 5)
    show "same_view w (ref_assign r v w') b" if "at a k w = Inr (r, w')" for r w'
      using that by (rule 7)
    show "same_view w (ref_assign r v w') b" if "subscript a k w = Inr (r, w')" for r w'
      using that by (rule 8)
  qed
qed

text \<open>
  C1. In a world satisfying the invariant: a copy of a container \<open>a\<close>, made by the copy
  constructor or by assignment to a container \<open>b\<close>, is a live container other than \<open>a\<close> that
  shows what \<open>a\<close> shows, and making it changes nothing of what \<open>a\<close> shows. And for any two
  live containers \<open>a\<close> and \<open>b\<close>, whether they point to one pointee or to two: a mutating
  operation (\<open>insert\<close>, \<open>erase\<close>, \<open>operator[]\<close>, mutable \<open>at\<close>, \<open>merge\<close>, \<open>clear\<close>, and the
  write through a reference just returned) on one of them, whether it returns or throws,
  changes nothing of what the other shows: not its iteration order (so not its size) and
  not the value or absence of any key.
\<close>

theorem copies_are_independent:
  assumes "world_inv w" "live w a" "live w b" "a \<noteq> b"
  shows "unchanged_by_calls_on w a b \<and> unchanged_by_calls_on w b a \<and>
    (\<forall>c w'. copy_construct a w = Inr (c, w') \<longrightarrow>
       world_inv w' \<and> live w' a \<and> live w' c \<and> c \<noteq> a \<and> same_view w w' a \<and>
       order w' c = order w a \<and> lookup w' c = lookup w a) \<and>
    (\<forall>u w'. assign b a w = Inr (u, w') \<longrightarrow>
       world_inv w' \<and> live w' a \<and> live w' b \<and> same_view w w' a \<and>
       order w' b = order w a \<and> lookup w' b = lookup w a)"
proof (intro conjI allI impI)
  show "unchanged_by_calls_on w a b" using assms by (simp add: calls_leave_others)
  show "unchanged_by_calls_on w b a" using assms by (simp add: calls_leave_others)
next
  fix c w'
  assume r: "copy_construct a w = Inr (c, w')"
  note cc = copy_construct_Inr[OF assms(1,2) r]
  show "world_inv w'" by (rule cc(2))
  show "live w' a" using cc(3) assms(2) by simp
  show "live w' c" using cc(3) by simp
  show "c \<noteq> a" using cc(1) assms(2) by (auto simp: live_def)
  show "same_view w w' a" using cc(4)[OF assms(2)] by (simp add: same_view_pointee)
  show "order w' c = order w a" by (rule cc(7))
  show "lookup w' c = lookup w a" by (rule cc(8))
next
  fix u w'
  assume r: "assign b a w = Inr (u, w')"
  note as = assign_Inr[OF assms(1,3,2) r]
  show "world_inv w'" by (rule as(1))
  show "live w' a" "live w' b" using as(2) assms(2,3) by simp_all
  show "same_view w w' a" using as(5)[OF assms(4,2)] by (simp add: same_view_pointee)
  show "order w' b = order w a" by (rule as(3))
  show "lookup w' b = lookup w a" by (rule as(4))
qed

theorem copies_are_independent_witness:
  "world_inv shared_ab \<and> live shared_ab 0 \<and> live shared_ab 1 \<and>
   data shared_ab 0 = data shared_ab 1 \<and>
   order (outcome (insert_iom 0 ''c'' 3 shared_ab)) 0 = [''a'', ''b'', ''c''] \<and>
   order (outcome (insert_iom 0 ''c'' 3 shared_ab)) 1 = [''a'', ''b''] \<and>
   lookup (outcome (insert_iom 0 ''c'' 3 shared_ab)) 1 ''c'' = None \<and>
   order (outcome (erase 1 ''a'' shared_ab)) 1 = [''b''] \<and>
   order (outcome (erase 1 ''a'' shared_ab)) 0 = [''a'', ''b''] \<and>
   lookup (outcome (erase 1 ''a'' shared_ab)) 0 ''a'' = Some 1 \<and>
   (\<exists>w'. copy_construct 0 shared_ab = Inr (2, w') \<and> live w' 2 \<and> order w' 2 = [''a'', ''b''] \<and>
      order (outcome (clear 2 w')) 0 = [''a'', ''b''] \<and> order (outcome (clear 2 w')) 2 = [])"
proof -
  note t = copies_are_independent[OF shared_ab_inv shared_ab_live]
  have u: "unchanged_by_calls_on shared_ab 0 1" "unchanged_by_calls_on shared_ab 1 0"
    using t by simp_all
  have 1: "same_view shared_ab (outcome (insert_iom 0 ''c'' 3 shared_ab)) 1"
    using u(1) by (simp add: unchanged_by_calls_on_def)
  have 2: "same_view shared_ab (outcome (erase 1 ''a'' shared_ab)) 0"
    using u(2) by (simp add: unchanged_by_calls_on_def)
  have own: "order (outcome (insert_iom 0 ''c'' 3 shared_ab)) 0 = [''a'', ''b'', ''c'']"
    "order (outcome (erase 1 ''a'' shared_ab)) 1 = [''b'']"
    "data shared_ab 0 = data shared_ab 1"
    by (simp_all add: shared_ab_def eval_defs erase_def contains_def)
  obtain w' where c: "copy_construct 0 shared_ab = Inr (2, w')"
    by (simp add: shared_ab_def eval_defs)
  have c': "world_inv w'" "live w' 0" "live w' 2" "order w' 2 = [''a'', ''b'']"
    using t c shared_ab_view by simp_all
  have "unchanged_by_calls_on w' 2 0"
    using copies_are_independent[OF c'(1,3,2)] by simp
  then have "same_view w' (outcome (clear 2 w')) 0" by (simp add: unchanged_by_calls_on_def)
  moreover have "same_view shared_ab w' 0" using t c by simp
  ultimately have 3: "order (outcome (clear 2 w')) 0 = [''a'', ''b'']"
    using shared_ab_view by (simp add: same_view_def)
  have "order (outcome (clear 2 w')) 2 = []"
    using c by (auto simp: shared_ab_def eval_defs clear_def)
  then have "\<exists>w'. copy_construct 0 shared_ab = Inr (2, w') \<and> live w' 2 \<and>
      order w' 2 = [''a'', ''b''] \<and>
      order (outcome (clear 2 w')) 0 = [''a'', ''b''] \<and> order (outcome (clear 2 w')) 2 = []"
    using c c' 3 by blast
  then show ?thesis
    using 1 2 own shared_ab_inv shared_ab_live shared_ab_view by (simp add: same_view_def)
qed

section \<open>The flag after a mutation\<close>

lemma copy_shares:
  assumes "live w h" "\<not> non_const_refs_given (pointee w h)"
  shows "\<exists>c w'. copy_construct h w = Inr (c, w') \<and> c \<noteq> h \<and> live w' c \<and>
    data w' c = data w' h \<and> data w' h = data w h"
proof -
  let ?w' = "w\<lparr>handles := handles w @ [Some (data w h)]\<rparr>"
  let ?c = "length (handles w)"
  have d: "data ?w' ?c = data w h" by (simp add: data_def)
  then have "copy_construct h w = Inr (?c, ?w')"
    using assms(2) by (simp add: copy_construct_def Let_def pointee_def)
  moreover have "?c \<noteq> h" using assms(1) by (auto simp: live_def)
  moreover have "live ?w' ?c" by (simp add: live_new_handle)
  moreover have "data ?w' h = data w h"
    using assms(1) by (simp add: data_def live_def nth_append)
  ultimately show ?thesis using d by auto
qed

lemma flag_resetI:
  "live w' h \<Longrightarrow> \<not> non_const_refs_given (pointee w' h) \<Longrightarrow> flag_reset w' h"
  using copy_shares[of w' h] by (simp add: flag_reset_def)

lemma insert_iom_flag:
  assumes "world_inv w" "live w h" "insert_iom h k v w = Inr (b, w')"
  shows "flag_reset w' h" and "\<not> 1 < use_count w (data w h) \<Longrightarrow> data w' h = data w h"
proof -
  have ok: "handles_ok w" using assms(1) by (simp add: world_inv_def)
  have "live w' h" using insert_iom_inv(2)[OF assms] assms(2) by simp
  then show "flag_reset w' h" using insert_iom_view(5)[OF assms] by (simp add: flag_resetI)
  have eff: "store_eq (apply_op h (ins k v) w) w'" using insert_iom_Inr[OF ok assms(2,3)] by simp
  show "data w' h = data w h" if "\<not> 1 < use_count w (data w h)"
    using that by (simp add: store_eq_data[OF eff] data_apply_op_exclusive)
qed

lemma erase_flag:
  assumes "world_inv w" "live w h" "erase h k w = Inr (u, w')"
  shows "flag_reset w' h" and "\<not> 1 < use_count w (data w h) \<Longrightarrow> data w' h = data w h"
proof -
  have ok: "handles_ok w" using assms(1) by (simp add: world_inv_def)
  have eff: "store_eq (apply_op h (del k) w) w'"
    and present: "mappings (pointee w h) k \<noteq> None"
    using erase_Inr[OF ok assms(2,3)] by simp_all
  have "mappings (pointee (owned h w) h) k \<noteq> None"
    using present assms(2) clone_keeps[of "pointee w h" k "v_default w"]
    by (auto simp: pointee_owned_self)
  then have "\<not> non_const_refs_given (del k (pointee (owned h w) h))"
    by (auto simp: del_def)
  then have "\<not> non_const_refs_given (pointee w' h)"
    using store_eq_pointee[OF eff] pointee_apply_op[OF ok assms(2)] by simp
  moreover have "live w' h" using store_eq_live[OF eff] live_apply_op[OF assms(2)] assms(2) by simp
  ultimately show "flag_reset w' h" by (simp add: flag_resetI)
  show "data w' h = data w h" if "\<not> 1 < use_count w (data w h)"
    using that by (simp add: store_eq_data[OF eff] data_apply_op_exclusive)
qed

lemma clear_flag:
  assumes "world_inv w" "live w h" "clear h w = Inr (u, w')"
  shows "flag_reset w' h" and "\<not> 1 < use_count w (data w h) \<Longrightarrow> data w' h = data w h"
proof -
  have ok: "handles_ok w" using assms(1) by (simp add: world_inv_def)
  have eff: "store_eq (apply_op h clr w) w'" using clear_Inr[OF ok assms(2,3)] by simp
  have "\<not> non_const_refs_given (pointee w' h)"
    using store_eq_pointee[OF eff] pointee_apply_op[OF ok assms(2)] by (simp add: clr_def)
  moreover have "live w' h" using store_eq_live[OF eff] live_apply_op[OF assms(2)] assms(2) by simp
  ultimately show "flag_reset w' h" by (simp add: flag_resetI)
  show "data w' h = data w h" if "\<not> 1 < use_count w (data w h)"
    using that by (simp add: store_eq_data[OF eff] data_apply_op_exclusive)
qed

lemma merge_flag:
  assumes "world_inv w" "live w h" "live w other" "other \<noteq> h"
    "merge_iom h other w = Inr (u, w')"
  shows "flag_reset w' h"
proof -
  have ok: "handles_ok w" using assms(1) by (simp add: world_inv_def)
  have "\<not> non_const_refs_given (pointee w' h)"
    by (simp add: merge_returns[OF ok assms(2,3,4,5)] set_flag_def)
  moreover have "live w' h"
    using frame_live[OF merge_outcome(1)[OF ok assms(2,3)], of h] assms(2,5)
    by (simp add: outcome_def)
  ultimately show ?thesis by (simp add: flag_resetI)
qed

text \<open>
  C10 as stated fails for a merge of a container with itself: the call returns at its
  first line, the flag stays set, and a copy made afterwards gets a clone, not the pointee.
\<close>

theorem self_merge_keeps_flag:
  "reachable escaped_a \<and> live escaped_a 0 \<and>
   merge_iom 0 0 escaped_a = Inr ((), escaped_a) \<and>
   non_const_refs_given (pointee escaped_a 0) \<and>
   data (outcome (copy_construct 0 (outcome (merge_iom 0 0 escaped_a)))) 1 \<noteq>
   data (outcome (copy_construct 0 (outcome (merge_iom 0 0 escaped_a)))) 0"
proof -
  let ?w1 = "outcome (construct (init [] (0::int))) :: (string, int) world"
  have "reachable ?w1" by (rule reachable.construct) (rule reachable.start)
  moreover have "live ?w1 0" by (simp add: eval_defs)
  ultimately have "reachable (outcome (subscript 0 ''a'' ?w1))" by (rule reachable.subscript)
  then have r: "reachable escaped_a" by (simp only: escaped_a_def)
  have m: "merge_iom 0 0 escaped_a = Inr ((), escaped_a)" by (simp add: merge_iom_def)
  have "live escaped_a 0" "non_const_refs_given (pointee escaped_a 0)"
    "data (outcome (copy_construct 0 escaped_a)) 1 \<noteq>
     data (outcome (copy_construct 0 escaped_a)) 0"
    by (simp_all add: escaped_a_def eval_defs subscript_def at_def contains_def mappings_at_def)
  then show ?thesis using r m by (simp add: outcome_def)
qed

lemma escaped_pair_facts:
  "world_inv escaped_pair" "live escaped_pair 0" "live escaped_pair 1"
  "non_const_refs_given (pointee escaped_pair 0)" "faults escaped_pair = []"
  "\<not> 1 < use_count escaped_pair (data escaped_pair 0)" "data escaped_pair 0 = 0"
  by (auto simp: escaped_pair_def world_inv_def handles_ok_def struct_inv_def live_def
      pointee_def data_def use_count_def)

lemma clear_no_faults: "faults w = [] \<Longrightarrow> \<exists>w'. clear h w = Inr ((), w')"
  using copy_on_write_no_faults[of w h] by (auto simp: clear_def)

lemma escaped_a_facts:
  "reachable escaped_a" "world_inv escaped_a" "live escaped_a 0" "faults escaped_a = []"
  "non_const_refs_given (pointee escaped_a 0)" "length (handles escaped_a) = 1"
  "\<not> 1 < use_count escaped_a (data escaped_a 0)"
proof -
  let ?w1 = "outcome (construct (init [] (0::int))) :: (string, int) world"
  have "reachable ?w1" by (rule reachable.construct) (rule reachable.start)
  moreover have "live ?w1 0" by (simp add: eval_defs)
  ultimately have "reachable (outcome (subscript 0 ''a'' ?w1))" by (rule reachable.subscript)
  then show r: "reachable escaped_a" by (simp only: escaped_a_def)
  then show "world_inv escaped_a" by (rule reachable_world_inv)
  show "live escaped_a 0" "faults escaped_a = []" "non_const_refs_given (pointee escaped_a 0)"
    "length (handles escaped_a) = 1" "\<not> 1 < use_count escaped_a (data escaped_a 0)"
    by (simp_all add: escaped_a_def eval_defs subscript_def at_def contains_def mappings_at_def)
qed

text \<open>
  C10, amended. In a world satisfying the invariant, with one container or with more:
  \<open>insert\<close>, \<open>erase\<close> and \<open>clear\<close>, when they return, leave the flag of the container's
  pointee clear, so that the copy constructor called next shares that pointee; this is so
  also when the container owned its pointee and the call wrote to it in place (the \<open>data\<close>
  pointer is the one from before the call, whatever the flag was). \<open>merge\<close> with another
  live container, when it returns, leaves the flag clear in the same way. \<open>merge\<close> of a
  container with itself returns the world it was called in, so the flag is as it was.
\<close>

theorem mutation_resets_flag:
  assumes "world_inv w" "live w h"
  shows "(\<forall>b w'. insert_iom h k v w = Inr (b, w') \<longrightarrow>
           flag_reset w' h \<and> (\<not> 1 < use_count w (data w h) \<longrightarrow> data w' h = data w h)) \<and>
    (\<forall>u w'. erase h k w = Inr (u, w') \<longrightarrow>
           flag_reset w' h \<and> (\<not> 1 < use_count w (data w h) \<longrightarrow> data w' h = data w h)) \<and>
    (\<forall>u w'. clear h w = Inr (u, w') \<longrightarrow>
           flag_reset w' h \<and> (\<not> 1 < use_count w (data w h) \<longrightarrow> data w' h = data w h)) \<and>
    (\<forall>other u w'. live w other \<and> other \<noteq> h \<and> merge_iom h other w = Inr (u, w') \<longrightarrow>
           flag_reset w' h) \<and>
    merge_iom h h w = Inr ((), w) \<and>
    non_const_refs_given (pointee (outcome (merge_iom h h w)) h) =
      non_const_refs_given (pointee w h)"
proof (intro conjI allI impI)
  fix b w'
  assume r: "insert_iom h k v w = Inr (b, w')"
  show "flag_reset w' h" using assms r by (rule insert_iom_flag(1))
  show "data w' h = data w h" if "\<not> 1 < use_count w (data w h)"
    using assms r that by (rule insert_iom_flag(2))
next
  fix u w'
  assume r: "erase h k w = Inr (u, w')"
  show "flag_reset w' h" using assms r by (rule erase_flag(1))
  show "data w' h = data w h" if "\<not> 1 < use_count w (data w h)"
    using assms r that by (rule erase_flag(2))
next
  fix u w'
  assume r: "clear h w = Inr (u, w')"
  show "flag_reset w' h" using assms r by (rule clear_flag(1))
  show "data w' h = data w h" if "\<not> 1 < use_count w (data w h)"
    using assms r that by (rule clear_flag(2))
next
  fix other u w'
  assume "live w other \<and> other \<noteq> h \<and> merge_iom h other w = Inr (u, w')"
  then have "live w other" "other \<noteq> h" "merge_iom h other w = Inr (u, w')" by simp_all
  with assms show "flag_reset w' h" by (rule merge_flag)
next
  show self: "merge_iom h h w = Inr ((), w)" by (simp add: merge_iom_def)
  show "non_const_refs_given (pointee (outcome (merge_iom h h w)) h) =
      non_const_refs_given (pointee w h)"
    by (simp add: self outcome_def)
qed

theorem mutation_resets_flag_witness:
  "world_inv escaped_a \<and> live escaped_a 0 \<and> length (handles escaped_a) = 1 \<and>
   non_const_refs_given (pointee escaped_a 0) \<and>
   (\<exists>b w'. insert_iom 0 ''c'' 3 escaped_a = Inr (b, w') \<and> flag_reset w' 0 \<and>
      data w' 0 = data escaped_a 0) \<and>
   (\<exists>w'. clear 0 escaped_a = Inr ((), w') \<and> flag_reset w' 0 \<and> data w' 0 = data escaped_a 0) \<and>
   world_inv escaped_pair \<and> live escaped_pair 0 \<and> live escaped_pair 1 \<and>
   non_const_refs_given (pointee escaped_pair 0) \<and>
   (\<exists>w'. erase 0 ''a'' escaped_pair = Inr ((), w') \<and> flag_reset w' 0 \<and>
      data w' 0 = data escaped_pair 0) \<and>
   (\<exists>w'. merge_iom 0 1 escaped_pair = Inr ((), w') \<and> flag_reset w' 0) \<and>
   merge_iom 0 0 escaped_pair = Inr ((), escaped_pair) \<and>
   non_const_refs_given (pointee (outcome (merge_iom 0 0 escaped_pair)) 0) \<and>
   lookup (ref_assign (0, ''a'') 9
     (outcome (copy_construct 0 (outcome (insert_iom 0 ''c'' 3 escaped_pair))))) 2 ''a'' = Some 9"
proof -
  note one = mutation_resets_flag[OF escaped_a_facts(2,3), of "''c''" 3]
  note two = mutation_resets_flag[OF escaped_pair_facts(1,2), of "''a''" 3]
  obtain b w1 where r1: "insert_iom 0 ''c'' 3 escaped_a = Inr (b, w1)"
    using insert_iom_no_faults[OF escaped_a_facts(4)] by blast
  have 1: "\<exists>b w'. insert_iom 0 ''c'' 3 escaped_a = Inr (b, w') \<and> flag_reset w' 0 \<and>
      data w' 0 = data escaped_a 0"
    using one r1 escaped_a_facts(7) by blast
  obtain w2 where r2: "clear 0 escaped_a = Inr ((), w2)"
    using clear_no_faults[OF escaped_a_facts(4)] by blast
  have 2: "\<exists>w'. clear 0 escaped_a = Inr ((), w') \<and> flag_reset w' 0 \<and>
      data w' 0 = data escaped_a 0"
    using one r2 escaped_a_facts(7) by blast
  obtain w3 where r3: "erase 0 ''a'' escaped_pair = Inr ((), w3)"
    by (simp add: escaped_pair_def eval_defs erase_def contains_def)
  have 3: "\<exists>w'. erase 0 ''a'' escaped_pair = Inr ((), w') \<and> flag_reset w' 0 \<and>
      data w' 0 = data escaped_pair 0"
    using two r3 escaped_pair_facts(6) by blast
  obtain w4 where r4: "merge_iom 0 1 escaped_pair = Inr ((), w4)"
    using merge_no_faults[OF escaped_pair_facts(1,2,3,5)] by blast
  have ne: "(1::nat) \<noteq> 0" by simp
  have 4: "\<exists>w'. merge_iom 0 1 escaped_pair = Inr ((), w') \<and> flag_reset w' 0"
    using two r4 escaped_pair_facts(3) ne by blast
  have 5: "merge_iom 0 0 escaped_pair = Inr ((), escaped_pair)"
    "non_const_refs_given (pointee (outcome (merge_iom 0 0 escaped_pair)) 0)"
    using two escaped_pair_facts(4) by blast+
  have 6: "lookup (ref_assign (0, ''a'') 9
     (outcome (copy_construct 0 (outcome (insert_iom 0 ''c'' 3 escaped_pair))))) 2 ''a'' = Some 9"
    by (simp add: escaped_pair_def eval_defs ref_assign_def)
  from escaped_a_facts(2,3,6,5) 1 2 escaped_pair_facts(1,2,3,4) 3 4 5 6
  show ?thesis by - (intro conjI, assumption+)
qed

section \<open>What a throwing call leaves behind\<close>

lemma strong_guarantee_merge:
  assumes "handles_ok w" "live w h" "live w other" "merge_iom h other w = Inl (e, w')"
  shows "same_view w w' h"
  using merge_outcome(3)[OF assms] by (rule same_view_pointee)

text \<open>\<open>operator[]\<close> that throws: every key has the value it had; the iteration order is the
  one before the call when \<open>k\<close> was absent, and may have \<open>k\<close> moved to the end when \<open>k\<close> was
  present.\<close>

lemma subscript_throw_view:
  assumes "world_inv w" "live w h" "subscript h k w = Inl (e, w')"
  shows "lookup w' h k' = lookup w h k'"
    and "lookup w h k = None \<Longrightarrow> order w' h = order w h"
    and "order w' h = order w h \<or> order w' h = filter (\<lambda>x. x \<noteq> k) (order w h) @ [k]"
proof -
  have ok: "handles_ok w" using assms(1) by (simp add: world_inv_def)
  have "(\<forall>k'. lookup w' h k' = lookup w h k') \<and>
      (lookup w h k = None \<longrightarrow> order w' h = order w h) \<and>
      (order w' h = order w h \<or> order w' h = filter (\<lambda>x. x \<noteq> k) (order w h) @ [k])"
    using ok assms(2)
  proof (cases rule: subscript_cases[where k = k])
    case (returns r w0 w1 w' ir)
    then show ?thesis using assms(3) by simp
  next
    case (early e1 w1)
    then have "pointee w' h = pointee w h"
      using assms(3) rolled_back_pointee[OF ok assms(2)] by simp
    then show ?thesis by (simp add: order_def lookup_def)
  next
    case (late e1 w0 w1 w2 ir)
    have ok0: "handles_ok w0" "live w0 h" "world_inv w0"
      using ok assms(1,2) late(1)
      by (simp_all add: store_eq_handles_ok store_eq_live store_eq_world_inv)
    let ?s0 = "pointee (owned h w0) h"
    have w': "w' = (if snd ir then upd (data w2 h) (undo_insert k) w2 else w2)"
      using late(4) assms(3) by simp
    have p: "pointee w' h =
        (if mappings ?s0 k = None then set_flag False ?s0 else ins k (v_default w) ?s0)"
      unfolding w' by (rule subscript_late(2)[OF ok0(1,2) late(2,3)])
    note view0 = owned_view[OF ok0(3,2)]
    have same: "order w0 h = order w h" "lookup w0 h = lookup w h"
      using late(1) by (simp_all add: store_eq_order store_eq_lookup fun_eq_iff)
    show ?thesis
    proof (cases "mappings ?s0 k = None")
      case True
      then have "pointee w' h = set_flag False ?s0" using p by simp
      then have "order w' h = order w h" "\<forall>k'. lookup w' h k' = lookup w h k'"
        using view0(2,3) same by (simp_all add: order_def lookup_def set_flag_def)
      then show ?thesis by simp
    next
      case False
      then have pi: "pointee w' h = ins k (v_default w) ?s0" using p by auto
      have "order w' h = filter (\<lambda>x. x \<noteq> k) (order w h) @ [k]"
        using keys_ins[OF view0(1)] view0(2) same by (simp add: order_def pi)
      moreover have "lookup w' h k' = lookup w h k'" for k'
        using values_ins[of k "v_default w" ?s0 k'] view0(3)[of k'] view0(3)[of k] False same
        by (auto simp: lookup_def pi split: option.splits)
      moreover have "lookup w h k \<noteq> None" using False view0(4)[of k] same by simp
      ultimately show ?thesis by auto
    qed
  qed
  then show "lookup w' h k' = lookup w h k'"
    and "lookup w h k = None \<Longrightarrow> order w' h = order w h"
    and "order w' h = order w h \<or> order w' h = filter (\<lambda>x. x \<noteq> k) (order w h) @ [k]"
    by simp_all
qed

end
